theory Spec2Isabelle
  imports Main
begin

section \<open>Strings\<close>

text \<open>
  The strings of the engine are the letters \<^verbatim>\<open>a..z\<close>, their upper-case forms and the
  target letter that the host sets. They are modelled as ASCII strings: a character
  is a code unit below 128, given by its seven bits, so that a string with another
  code unit is not a value of the model. On these strings \<^verbatim>\<open>toLowerCase\<close> and
  \<^verbatim>\<open>toUpperCase\<close> of JavaScript map \<^verbatim>\<open>A..Z\<close> to \<^verbatim>\<open>a..z\<close> and back and leave every other
  character as it is. \<open>ascii\<close> turns a string literal into a string of the model.
\<close>

datatype asciiChar = AsciiChar bool bool bool bool bool bool bool

type_synonym jsString = "asciiChar list"

text \<open>\<^verbatim>\<open>charCodeAt\<close> and \<^verbatim>\<open>String.fromCharCode\<close> on one character.\<close>

fun charCode :: "asciiChar \<Rightarrow> nat" where
  "charCode (AsciiChar b0 b1 b2 b3 b4 b5 b6) =
     of_bool b0 + 2 * of_bool b1 + 4 * of_bool b2 + 8 * of_bool b3 + 16 * of_bool b4
     + 32 * of_bool b5 + 64 * of_bool b6"

definition fromCharCode :: "nat \<Rightarrow> asciiChar" where
  "fromCharCode n =
     AsciiChar (odd n) (odd (n div 2)) (odd (n div 4)) (odd (n div 8)) (odd (n div 16))
       (odd (n div 32)) (odd (n div 64))"

definition ascii :: "string \<Rightarrow> jsString" where
  "ascii cs = map (\<lambda>c. fromCharCode (of_char c)) cs"

definition toLowerChar :: "asciiChar \<Rightarrow> asciiChar" where
  "toLowerChar c =
     (let n = charCode c in if 65 \<le> n \<and> n \<le> 90 then fromCharCode (n + 32) else c)"

definition toUpperChar :: "asciiChar \<Rightarrow> asciiChar" where
  "toUpperChar c =
     (let n = charCode c in if 97 \<le> n \<and> n \<le> 122 then fromCharCode (n - 32) else c)"

definition toLowerCase :: "jsString \<Rightarrow> jsString" where
  "toLowerCase s = map toLowerChar s"

definition toUpperCase :: "jsString \<Rightarrow> jsString" where
  "toUpperCase s = map toUpperChar s"

section \<open>Grid model\<close>

text \<open>
  The engine of \<^verbatim>\<open>LinkGameEngine.ts\<close> keeps a bordered grid \<^verbatim>\<open>pictures[row][col]\<close> of
  \<^verbatim>\<open>CellInfo\<close> objects. JavaScript numbers are modelled as \<open>int\<close> (every number of the
  engine is a small integer), the optional \<^verbatim>\<open>index\<close> of a cell as an \<open>option\<close>. A
  coordinate pair \<^verbatim>\<open>[x, y]\<close> is column first, as in the source.
\<close>

record cellInfo =
  isEmpty :: bool
  type :: int
  pic :: jsString
  index :: "int option"

type_synonym grid = "cellInfo list list"

type_synonym point = "int \<times> int"

text \<open>
  \<^verbatim>\<open>this.pictures[y][x]\<close>. A read outside the arrays raises a TypeError in JavaScript;
  \<open>inGrid\<close> says that a read is inside, and the entry points of the session check it
  before they read.
\<close>

definition cellAt :: "grid \<Rightarrow> int \<Rightarrow> int \<Rightarrow> cellInfo" where
  "cellAt g y x = g ! nat y ! nat x"

definition inGrid :: "grid \<Rightarrow> int \<Rightarrow> int \<Rightarrow> bool" where
  "inGrid g y x \<longleftrightarrow> 0 \<le> y \<and> y < int (length g) \<and> 0 \<le> x \<and> x < int (length (g ! nat y))"

definition emptyAt :: "grid \<Rightarrow> int \<Rightarrow> int \<Rightarrow> bool" where
  "emptyAt g y x = isEmpty (cellAt g y x)"

definition setCell :: "grid \<Rightarrow> int \<Rightarrow> int \<Rightarrow> cellInfo \<Rightarrow> grid" where
  "setCell g y x c = g[nat y := (g ! nat y)[nat x := c]]"

text \<open>
  The grid has \<open>rows\<close> rows of \<open>cols\<close> cells each; the play area is what lies inside
  the one-cell border.
\<close>

definition wellFormed :: "int \<Rightarrow> int \<Rightarrow> grid \<Rightarrow> bool" where
  "wellFormed rows cols g \<longleftrightarrow> length g = nat rows \<and> list_all (\<lambda>row. length row = nat cols) g"

definition inPlayArea :: "int \<Rightarrow> int \<Rightarrow> int \<Rightarrow> int \<Rightarrow> bool" where
  "inPlayArea rows cols y x \<longleftrightarrow> 1 \<le> y \<and> y \<le> rows - 2 \<and> 1 \<le> x \<and> x \<le> cols - 2"

section \<open>Connectivity resolver\<close>

definition isRowEmpty :: "grid \<Rightarrow> int \<Rightarrow> int \<Rightarrow> int \<Rightarrow> int \<Rightarrow> bool" where
  "isRowEmpty g x1 y1 x2 y2 =
     (if y1 \<noteq> y2 then False
      else list_all (\<lambda>i. emptyAt g y1 i) [min x1 x2 + 1 .. max x1 x2 - 1])"

definition isColEmpty :: "grid \<Rightarrow> int \<Rightarrow> int \<Rightarrow> int \<Rightarrow> int \<Rightarrow> bool" where
  "isColEmpty g x1 y1 x2 y2 =
     (if x1 \<noteq> x2 then False
      else list_all (\<lambda>i. emptyAt g i x1) [min y1 y2 + 1 .. max y1 y2 - 1])"

text \<open>
  Each loop of \<^verbatim>\<open>canCleanup\<close> is a recursive function returning \<open>Some\<close> of the turning
  points where the source adds them and returns true, and \<open>None\<close> where the loop ends or
  breaks.
\<close>

function colDetourRight :: "int \<Rightarrow> grid \<Rightarrow> int \<Rightarrow> int \<Rightarrow> int \<Rightarrow> int \<Rightarrow> int \<Rightarrow> point list option" where
  "colDetourRight cols g x1 y1 x2 y2 i =
     (if x1 + i < cols \<and> emptyAt g y1 (x1 + i) then
        (if \<not> emptyAt g y2 (x2 + i) then None
         else if isColEmpty g (x1 + i) y1 (x1 + i) y2
           then Some [(x1, y1), (x1 + i, y1), (x1 + i, y2), (x2, y2)]
         else colDetourRight cols g x1 y1 x2 y2 (i + 1))
      else None)"
  by pat_completeness auto
termination
  by (relation "measure (\<lambda>(cols, g, x1, y1, x2, y2, i). nat (cols - (x1 + i)))") auto

declare colDetourRight.simps [simp del]

function colDetourLeft :: "grid \<Rightarrow> int \<Rightarrow> int \<Rightarrow> int \<Rightarrow> int \<Rightarrow> int \<Rightarrow> point list option" where
  "colDetourLeft g x1 y1 x2 y2 i =
     (if x1 - i \<ge> 0 \<and> emptyAt g y1 (x1 - i) then
        (if \<not> emptyAt g y2 (x2 - i) then None
         else if isColEmpty g (x1 - i) y1 (x1 - i) y2
           then Some [(x1, y1), (x1 - i, y1), (x1 - i, y2), (x2, y2)]
         else colDetourLeft g x1 y1 x2 y2 (i + 1))
      else None)"
  by pat_completeness auto
termination
  by (relation "measure (\<lambda>(g, x1, y1, x2, y2, i). nat (x1 - i + 1))") auto

declare colDetourLeft.simps [simp del]

function rowDetourDown :: "int \<Rightarrow> grid \<Rightarrow> int \<Rightarrow> int \<Rightarrow> int \<Rightarrow> int \<Rightarrow> int \<Rightarrow> point list option" where
  "rowDetourDown rows g x1 y1 x2 y2 i =
     (if y1 + i < rows \<and> emptyAt g (y1 + i) x1 then
        (if \<not> emptyAt g (y2 + i) x2 then None
         else if isRowEmpty g x1 (y1 + i) x2 (y1 + i)
           then Some [(x1, y1), (x1, y1 + i), (x2, y1 + i), (x2, y2)]
         else rowDetourDown rows g x1 y1 x2 y2 (i + 1))
      else None)"
  by pat_completeness auto
termination
  by (relation "measure (\<lambda>(rows, g, x1, y1, x2, y2, i). nat (rows - (y1 + i)))") auto

declare rowDetourDown.simps [simp del]

function rowDetourUp :: "grid \<Rightarrow> int \<Rightarrow> int \<Rightarrow> int \<Rightarrow> int \<Rightarrow> int \<Rightarrow> point list option" where
  "rowDetourUp g x1 y1 x2 y2 i =
     (if y1 - i \<ge> 0 \<and> emptyAt g (y1 - i) x1 then
        (if \<not> emptyAt g (y2 - i) x2 then None
         else if isRowEmpty g x1 (y1 - i) x2 (y1 - i)
           then Some [(x1, y1), (x1, y1 - i), (x2, y1 - i), (x2, y2)]
         else rowDetourUp g x1 y1 x2 y2 (i + 1))
      else None)"
  by pat_completeness auto
termination
  by (relation "measure (\<lambda>(g, x1, y1, x2, y2, i). nat (y1 - i + 1))") auto

declare rowDetourUp.simps [simp del]

text \<open>
  The four scans of the last block start with \<^verbatim>\<open>i = x1\<close> (or \<^verbatim>\<open>y1\<close>) and test
  \<^verbatim>\<open>++i < cols\<close>, \<^verbatim>\<open>--i >= 0\<close>: the argument \<open>i\<close> is the value before the increment.
\<close>

function twoTurnRight :: "int \<Rightarrow> grid \<Rightarrow> int \<Rightarrow> int \<Rightarrow> int \<Rightarrow> int \<Rightarrow> int \<Rightarrow> point list option" where
  "twoTurnRight cols g x1 y1 x2 y2 i =
     (if i + 1 < cols then
        (if \<not> emptyAt g y1 (i + 1) then None
         else if isColEmpty g (i + 1) y1 (i + 1) y2 \<and> isRowEmpty g (i + 1) y2 x2 y2
                 \<and> emptyAt g y2 (i + 1)
           then Some [(x1, y1), (i + 1, y1), (i + 1, y2), (x2, y2)]
         else twoTurnRight cols g x1 y1 x2 y2 (i + 1))
      else None)"
  by pat_completeness auto
termination
  by (relation "measure (\<lambda>(cols, g, x1, y1, x2, y2, i). nat (cols - i))") auto

declare twoTurnRight.simps [simp del]

function twoTurnLeft :: "grid \<Rightarrow> int \<Rightarrow> int \<Rightarrow> int \<Rightarrow> int \<Rightarrow> int \<Rightarrow> point list option" where
  "twoTurnLeft g x1 y1 x2 y2 i =
     (if i - 1 \<ge> 0 then
        (if \<not> emptyAt g y1 (i - 1) then None
         else if isColEmpty g (i - 1) y1 (i - 1) y2 \<and> isRowEmpty g (i - 1) y2 x2 y2
                 \<and> emptyAt g y2 (i - 1)
           then Some [(x1, y1), (i - 1, y1), (i - 1, y2), (x2, y2)]
         else twoTurnLeft g x1 y1 x2 y2 (i - 1))
      else None)"
  by pat_completeness auto
termination
  by (relation "measure (\<lambda>(g, x1, y1, x2, y2, i). nat i)") auto

declare twoTurnLeft.simps [simp del]

function twoTurnDown :: "int \<Rightarrow> grid \<Rightarrow> int \<Rightarrow> int \<Rightarrow> int \<Rightarrow> int \<Rightarrow> int \<Rightarrow> point list option" where
  "twoTurnDown rows g x1 y1 x2 y2 i =
     (if i + 1 < rows then
        (if \<not> emptyAt g (i + 1) x1 then None
         else if isRowEmpty g x1 (i + 1) x2 (i + 1) \<and> isColEmpty g x2 (i + 1) x2 y2
                 \<and> emptyAt g (i + 1) x2
           then Some [(x1, y1), (x1, i + 1), (x2, i + 1), (x2, y2)]
         else twoTurnDown rows g x1 y1 x2 y2 (i + 1))
      else None)"
  by pat_completeness auto
termination
  by (relation "measure (\<lambda>(rows, g, x1, y1, x2, y2, i). nat (rows - i))") auto

declare twoTurnDown.simps [simp del]

function twoTurnUp :: "grid \<Rightarrow> int \<Rightarrow> int \<Rightarrow> int \<Rightarrow> int \<Rightarrow> int \<Rightarrow> point list option" where
  "twoTurnUp g x1 y1 x2 y2 i =
     (if i - 1 \<ge> 0 then
        (if \<not> emptyAt g (i - 1) x1 then None
         else if isRowEmpty g x1 (i - 1) x2 (i - 1) \<and> isColEmpty g x2 (i - 1) x2 y2
                 \<and> emptyAt g (i - 1) x2
           then Some [(x1, y1), (x1, i - 1), (x2, i - 1), (x2, y2)]
         else twoTurnUp g x1 y1 x2 y2 (i - 1))
      else None)"
  by pat_completeness auto
termination
  by (relation "measure (\<lambda>(g, x1, y1, x2, y2, i). nat i)") auto

declare twoTurnUp.simps [simp del]

text \<open>The blocks of \<^verbatim>\<open>canCleanup\<close>, in the order of the source; \<open>None\<close> falls through.\<close>

definition sameColumn :: "int \<Rightarrow> grid \<Rightarrow> int \<Rightarrow> int \<Rightarrow> int \<Rightarrow> int \<Rightarrow> point list option" where
  "sameColumn cols g x1 y1 x2 y2 =
     (if x1 = x2 then
        (if \<bar>y1 - y2\<bar> = 1 then Some [(x1, y1), (x2, y2)]
         else if isColEmpty g x1 y1 x2 y2 then Some [(x1, y1), (x2, y2)]
         else (case colDetourRight cols g x1 y1 x2 y2 1 of
                 Some ps \<Rightarrow> Some ps
               | None \<Rightarrow> colDetourLeft g x1 y1 x2 y2 1))
      else None)"

definition sameRow :: "int \<Rightarrow> grid \<Rightarrow> int \<Rightarrow> int \<Rightarrow> int \<Rightarrow> int \<Rightarrow> point list option" where
  "sameRow rows g x1 y1 x2 y2 =
     (if y1 = y2 then
        (if \<bar>x1 - x2\<bar> = 1 then Some [(x1, y1), (x2, y2)]
         else if isRowEmpty g x1 y1 x2 y2 then Some [(x1, y1), (x2, y2)]
         else (case rowDetourDown rows g x1 y1 x2 y2 1 of
                 Some ps \<Rightarrow> Some ps
               | None \<Rightarrow> rowDetourUp g x1 y1 x2 y2 1))
      else None)"

definition oneTurn :: "grid \<Rightarrow> int \<Rightarrow> int \<Rightarrow> int \<Rightarrow> int \<Rightarrow> point list option" where
  "oneTurn g x1 y1 x2 y2 =
     (if isRowEmpty g x1 y1 x2 y1 \<and> emptyAt g y1 x2 \<and> isColEmpty g x2 y1 x2 y2
        then Some [(x1, y1), (x2, y1), (x2, y2)]
      else if isColEmpty g x1 y1 x1 y2 \<and> emptyAt g y2 x1 \<and> isRowEmpty g x1 y2 x2 y2
        then Some [(x1, y1), (x1, y2), (x2, y2)]
      else None)"

definition twoTurns :: "int \<Rightarrow> int \<Rightarrow> grid \<Rightarrow> int \<Rightarrow> int \<Rightarrow> int \<Rightarrow> int \<Rightarrow> point list option" where
  "twoTurns cols rows g x1 y1 x2 y2 =
     (if x1 \<noteq> x2 \<and> y1 \<noteq> y2 then
        (case twoTurnRight cols g x1 y1 x2 y2 x1 of
           Some ps \<Rightarrow> Some ps
         | None \<Rightarrow>
        (case twoTurnLeft g x1 y1 x2 y2 x1 of
           Some ps \<Rightarrow> Some ps
         | None \<Rightarrow>
        (case twoTurnDown rows g x1 y1 x2 y2 y1 of
           Some ps \<Rightarrow> Some ps
         | None \<Rightarrow> twoTurnUp g x1 y1 x2 y2 y1)))
      else None)"

text \<open>
  \<^verbatim>\<open>canCleanup(x1, y1, x2, y2)\<close>: the result is the returned boolean together with the
  value it leaves in \<^verbatim>\<open>this.points\<close>. The field \<^verbatim>\<open>points\<close> is reset at the start of every
  call and read only by \<^verbatim>\<open>checkMatch\<close> right after its own call, so it is modelled as the
  second component of the result and not as a field of the session.
\<close>

definition canCleanup :: "int \<Rightarrow> int \<Rightarrow> grid \<Rightarrow> int \<Rightarrow> int \<Rightarrow> int \<Rightarrow> int \<Rightarrow> bool \<times> point list" where
  "canCleanup cols rows g x1 y1 x2 y2 =
     (case sameColumn cols g x1 y1 x2 y2 of
        Some ps \<Rightarrow> (True, ps)
      | None \<Rightarrow>
     (case sameRow rows g x1 y1 x2 y2 of
        Some ps \<Rightarrow> (True, ps)
      | None \<Rightarrow>
     (case oneTurn g x1 y1 x2 y2 of
        Some ps \<Rightarrow> (True, ps)
      | None \<Rightarrow>
     (case twoTurns cols rows g x1 y1 x2 y2 of
        Some ps \<Rightarrow> (True, ps)
      | None \<Rightarrow> (False, [])))))"


section \<open>Solvability verifier\<close>

text \<open>\<^verbatim>\<open>a.toLowerCase() === b.toLowerCase() && a !== b\<close>\<close>

definition isMatch :: "jsString \<Rightarrow> jsString \<Rightarrow> bool" where
  "isMatch a b \<longleftrightarrow> toLowerCase a = toLowerCase b \<and> a \<noteq> b"

text \<open>The positions of the play area in the order of the loops \<^verbatim>\<open>for i ... for j\<close>: (row, col).\<close>

definition playPositions :: "int \<Rightarrow> int \<Rightarrow> (int \<times> int) list" where
  "playPositions rows cols = concat (map (\<lambda>i. map (\<lambda>j. (i, j)) [1 .. cols - 2]) [1 .. rows - 2])"

definition occupiedPositions :: "int \<Rightarrow> int \<Rightarrow> grid \<Rightarrow> (int \<times> int) list" where
  "occupiedPositions rows cols g = filter (\<lambda>(i, j). \<not> emptyAt g i j) (playPositions rows cols)"

text \<open>An entry \<^verbatim>\<open>{ row, col, pic }\<close> of the verifier's \<^verbatim>\<open>cells\<close> array.\<close>

type_synonym solveCell = "int \<times> int \<times> jsString"

text \<open>
  The verifier works on \<^verbatim>\<open>testMap\<close>, a copy of the grid, and makes \<^verbatim>\<open>canCleanup\<close> read it
  by pointing \<^verbatim>\<open>this.pictures\<close> at it. The store below holds the two grid objects and the
  reference that \<^verbatim>\<open>this.pictures\<close> currently is.
\<close>

datatype gridRef = LiveRef | TestRef

record vstore =
  thisPictures :: gridRef
  liveMap :: grid
  testMap :: grid

definition deref :: "vstore \<Rightarrow> grid" where
  "deref st = (case thisPictures st of LiveRef \<Rightarrow> liveMap st | TestRef \<Rightarrow> testMap st)"

text \<open>\<^verbatim>\<open>cells.filter((_, index) => index !== i && index !== j)\<close>\<close>

definition dropTwo :: "'a list \<Rightarrow> nat \<Rightarrow> nat \<Rightarrow> 'a list" where
  "dropTwo cells i j = map snd (filter (\<lambda>(k, c). k \<noteq> i \<and> k \<noteq> j) (enumerate 0 cells))"

lemma length_dropTwo [termination_simp]:
  "i < length cells \<Longrightarrow> length (dropTwo cells i j) < length cells"
proof -
  assume "i < length cells"
  then have "(i, cells ! i) \<in> set (enumerate 0 cells)"
    by (simp add: in_set_enumerate_eq)
  then have "length (filter (\<lambda>(k, c). k \<noteq> i \<and> k \<noteq> j) (enumerate 0 cells))
               < length (enumerate 0 cells)"
    by (intro length_filter_less[where x = "(i, cells ! i)"]) auto
  then show ?thesis by (simp add: dropTwo_def)
qed

text \<open>\<^verbatim>\<open>testMap[row][col].isEmpty = true\<close>\<close>

definition markEmpty :: "grid \<Rightarrow> int \<Rightarrow> int \<Rightarrow> grid" where
  "markEmpty g y x = setCell g y x ((cellAt g y x)\<lparr>isEmpty := True\<rparr>)"

text \<open>
  \<^verbatim>\<open>backtrackSolve\<close>; \<open>backtrackLoop\<close> is its pair of nested \<^verbatim>\<open>for\<close> loops at the indices
  \<open>i\<close>, \<open>j\<close>. Both return the boolean and the store they leave behind.
\<close>

function backtrackSolve :: "int \<Rightarrow> int \<Rightarrow> vstore \<Rightarrow> solveCell list \<Rightarrow> bool \<times> vstore"
  and backtrackLoop :: "int \<Rightarrow> int \<Rightarrow> vstore \<Rightarrow> solveCell list \<Rightarrow> nat \<Rightarrow> nat \<Rightarrow> bool \<times> vstore"
where
  "backtrackSolve rows cols st cells =
     (if length cells = 0 then (True, st) else backtrackLoop rows cols st cells 0 1)"
| "backtrackLoop rows cols st cells i j =
     (if \<not> i < length cells then (False, st)
      else if \<not> j < length cells then backtrackLoop rows cols st cells (i + 1) (i + 2)
      else
        (case (cells ! i, cells ! j) of ((row1, col1, pic1), (row2, col2, pic2)) \<Rightarrow>
          if isMatch pic1 pic2 then
            (let originalPictures = thisPictures st;
                 st1 = st\<lparr>thisPictures := TestRef\<rparr>
             in if fst (canCleanup cols rows (deref st1) col1 row1 col2 row2) then
                  (let cell1Original = cellAt (testMap st1) row1 col1;
                       cell2Original = cellAt (testMap st1) row2 col2;
                       st2 = st1\<lparr>testMap := markEmpty (markEmpty (testMap st1) row1 col1) row2 col2\<rparr>
                   in case backtrackSolve rows cols st2 (dropTwo cells i j) of
                        (True, st3) \<Rightarrow> (True, st3\<lparr>thisPictures := originalPictures\<rparr>)
                      | (False, st3) \<Rightarrow>
                          backtrackLoop rows cols
                            (st3\<lparr>testMap := setCell (setCell (testMap st3) row1 col1 cell1Original)
                                                row2 col2 cell2Original,
                                 thisPictures := originalPictures\<rparr>)
                            cells i (j + 1))
                else backtrackLoop rows cols (st1\<lparr>thisPictures := originalPictures\<rparr>) cells i (j + 1))
          else backtrackLoop rows cols st cells i (j + 1)))"
  by pat_completeness auto
termination
  by (relation "inv_image (less_than <*lex*> less_than <*lex*> less_than <*lex*> less_than)
        (\<lambda>a. case a of
           Inl (rows, cols, st, cells) \<Rightarrow> (length cells, 1 :: nat, 0 :: nat, 0 :: nat)
         | Inr (rows, cols, st, cells, i, j) \<Rightarrow>
             (length cells, 0, length cells - i, Suc (length cells) - j))")
     (auto simp: length_dropTwo)

declare backtrackSolve.simps [simp del] backtrackLoop.simps [simp del]

text \<open>
  \<^verbatim>\<open>isSolvable\<close> on the grid \<open>g\<close> that \<^verbatim>\<open>this.pictures\<close> refers to: the copy
  \<^verbatim>\<open>this.pictures.map(row => row.map(cell => ({ ...cell })))\<close> has the same value and is a
  new object, the second grid of the store. The result is the boolean and the value
  of \<^verbatim>\<open>this.pictures\<close> after the call.
\<close>

definition isSolvableStore :: "int \<Rightarrow> int \<Rightarrow> grid \<Rightarrow> bool \<times> vstore" where
  "isSolvableStore rows cols g =
     (let testMap0 = map (\<lambda>row. map (\<lambda>cell. cell) row) g;
          cells = map (\<lambda>(i, j). (i, j, pic (cellAt testMap0 i j))) (occupiedPositions rows cols testMap0)
      in backtrackSolve rows cols \<lparr>thisPictures = LiveRef, liveMap = g, testMap = testMap0\<rparr> cells)"

definition isSolvable :: "int \<Rightarrow> int \<Rightarrow> grid \<Rightarrow> bool \<times> grid" where
  "isSolvable rows cols g = (case isSolvableStore rows cols g of (b, st) \<Rightarrow> (b, deref st))"


section \<open>The session object\<close>

text \<open>
  \<^verbatim>\<open>ClickInfo\<close> (its \<^verbatim>\<open>index\<close> is called \<open>clickIndex\<close> here, the name \<open>index\<close> being
  the cell's), the three kinds of game over, and the two closures that \<^verbatim>\<open>checkMatch\<close>
  hands to \<^verbatim>\<open>drawLine\<close>: the success closure of a connected pair, which captures the
  two cells, and the error closure of a rejected pair; \<open>NoOp\<close> is \<^verbatim>\<open>() => {}\<close>.
\<close>

record clickInfo =
  row :: int
  col :: int
  clickIndex :: int

datatype gameOverType = Normal | StepsExceeded | TimeExceeded

datatype continuation = MatchResolved int int int int int int | RejectResolved | NoOp

text \<open>The nullable callback fields of the class, and the messages of the console and the toast.\<close>

datatype hook =
    OnScoreUpdate | OnTimeUpdate | OnSelectedCellChange | OnGameOver | OnMapUpdate | OnDrawLine
  | OnAnimationStart | OnShakeEffect | OnStepUpdate | OnTargetLetterEliminated | OnHint

datatype notice =
    MapUnsolvable | TemplateUsed | DeadlockNeedsManual | DeadlockAuto | ReshuffleUnsolvable
  | ForcedLayout | LinearLayout

datatype event =
    ScoreUpdate int
  | TimeUpdate int
  | SelectedCellChange "clickInfo option"
  | GameOver gameOverType int
  | MapUpdate grid int int
  | DrawLine "point list" continuation continuation
  | AnimationStart "(int \<times> int) list"
  | ShakeEffect "(int \<times> int \<times> jsString) list"
  | StepUpdate int
  | TargetLetterEliminated
  | Hint "(int \<times> int \<times> jsString) list"
  | ConsoleWarn notice
  | ConsoleError notice
  | ToastError notice

text \<open>
  A call that does not return normally: a read through \<^verbatim>\<open>undefined\<close> raises a TypeError;
  \<open>OutOfRandom\<close> says that the finite supply of random numbers below was used up
  before the call returned (a loop that draws random letters need not end).
\<close>

datatype failure = TypeError | OutOfRandom

text \<open>
  The fields of \<^verbatim>\<open>LinkGameEngine\<close>. \<open>timer\<close> says whether the one-second interval is
  running; \<open>hooks\<close> says which callbacks are set; \<open>events\<close> is the trace of the calls made
  to the callbacks, the console and the toast; \<open>random\<close> holds the numbers that the next
  calls of \<^verbatim>\<open>Math.random\<close> return, each scaled by its caller.
\<close>

record engine =
  score :: int
  steps :: int
  cols :: int
  rows :: int
  configInitialTime :: int
  leftDisorderTime :: int
  autoDisorderEnabled :: bool
  isAnimating :: bool
  selectedCell :: "clickInfo option"
  count :: int
  remain :: int
  pictures :: grid
  preClickInfo :: "clickInfo option"
  leftTime :: int
  timer :: bool
  targetLetter :: jsString
  hooks :: "hook \<Rightarrow> bool"
  events :: "event list"
  random :: "nat list"

text \<open>The constructor: \<^verbatim>\<open>config.cols || 10\<close> and so on; a missing field and 0 give the default.\<close>

definition orDefault :: "int option \<Rightarrow> int \<Rightarrow> int" where
  "orDefault v d = (case v of None \<Rightarrow> d | Some n \<Rightarrow> if n = 0 then d else n)"

definition newEngine :: "int option \<Rightarrow> int option \<Rightarrow> int option \<Rightarrow> engine" where
  "newEngine cfgCols cfgRows cfgTime =
     \<lparr>score = 0, steps = 0, cols = orDefault cfgCols 10, rows = orDefault cfgRows 8,
      configInitialTime = orDefault cfgTime 1000, leftDisorderTime = 5,
      autoDisorderEnabled = True, isAnimating = False, selectedCell = None, count = 0,
      remain = 0, pictures = [], preClickInfo = None, leftTime = 0, timer = False,
      targetLetter = ascii ''A'', hooks = (\<lambda>h. False), events = [], random = []\<rparr>"

definition emit :: "hook \<Rightarrow> event \<Rightarrow> engine \<Rightarrow> engine" where
  "emit h e s = (if hooks s h then s\<lparr>events := events s @ [e]\<rparr> else s)"

definition notify :: "event \<Rightarrow> engine \<Rightarrow> engine" where
  "notify e s = s\<lparr>events := events s @ [e]\<rparr>"

definition setTargetLetter :: "jsString \<Rightarrow> engine \<Rightarrow> engine" where
  "setTargetLetter letter s = s\<lparr>targetLetter := toUpperCase letter\<rparr>"

definition setSelectedCell :: "clickInfo option \<Rightarrow> engine \<Rightarrow> engine" where
  "setSelectedCell cellInfo s = emit OnSelectedCellChange (SelectedCellChange cellInfo) (s\<lparr>selectedCell := cellInfo\<rparr>)"

definition gameOver :: "gameOverType \<Rightarrow> engine \<Rightarrow> engine" where
  "gameOver t s = emit OnGameOver (GameOver t (score s)) (s\<lparr>timer := False\<rparr>)"

definition updateScore :: "engine \<Rightarrow> engine" where
  "updateScore s = emit OnScoreUpdate (ScoreUpdate (score s)) s"

definition renderMap :: "engine \<Rightarrow> engine" where
  "renderMap s = emit OnMapUpdate (MapUpdate (pictures s) (rows s) (cols s)) s"

definition destroy :: "engine \<Rightarrow> engine" where
  "destroy s = s\<lparr>timer := False\<rparr>"

text \<open>\<^verbatim>\<open>isSolvable()\<close> as a method: the boolean, and the session with the grid the call leaves.\<close>

definition isSolvableE :: "engine \<Rightarrow> bool \<times> engine" where
  "isSolvableE s = (case isSolvable (rows s) (cols s) (pictures s) of (b, g) \<Rightarrow> (b, s\<lparr>pictures := g\<rparr>))"

section \<open>Map generator\<close>

definition emptyCell :: cellInfo where
  "emptyCell = \<lparr>isEmpty = True, type = 0, pic = [], index = None\<rparr>"

definition initializeEmptyMap :: "engine \<Rightarrow> engine" where
  "initializeEmptyMap s = s\<lparr>pictures := replicate (nat (rows s)) (replicate (nat (cols s)) emptyCell)\<rparr>"

definition allLetters :: jsString where
  "allLetters = ascii ''abcdefghijklmnopqrstuvwxyz''"

text \<open>
  The loop of \<^verbatim>\<open>generateLetterPairs\<close>: one random number per round,
  \<^verbatim>\<open>Math.floor(Math.random() * 26)\<close> being the number modulo 26.
\<close>

fun letterLoop :: "int \<Rightarrow> jsString list \<Rightarrow> jsString list \<Rightarrow> nat list
    \<Rightarrow> failure + (jsString list \<times> nat list)" where
  "letterLoop pairsNeeded letters usedLetters [] =
     (if int (length letters) < pairsNeeded * 2 then Inl OutOfRandom else Inr (letters, []))"
| "letterLoop pairsNeeded letters usedLetters (r # rnd) =
     (if int (length letters) < pairsNeeded * 2 then
        (let randomLetter = [allLetters ! (r mod 26)] in
         if randomLetter \<notin> set usedLetters
           then letterLoop pairsNeeded (letters @ [randomLetter, toUpperCase randomLetter])
                  (randomLetter # usedLetters) rnd
         else letterLoop pairsNeeded letters usedLetters rnd)
      else Inr (letters, r # rnd))"

definition generateLetterPairs :: "engine \<Rightarrow> failure + (jsString list \<times> engine)" where
  "generateLetterPairs s =
     (let totalCells = (rows s - 2) * (cols s - 2);
          pairsNeeded = totalCells div 2;
          letters = (if targetLetter s \<noteq> []
                     then [toLowerCase (targetLetter s), toUpperCase (targetLetter s)] else []);
          usedLetters = (if targetLetter s \<noteq> [] then [toLowerCase (targetLetter s)] else [])
      in case letterLoop pairsNeeded letters usedLetters (random s) of
           Inl e \<Rightarrow> Inl e
         | Inr (ls, rnd) \<Rightarrow> Inr (ls, s\<lparr>random := rnd\<rparr>))"

definition getAllValidPositions :: "engine \<Rightarrow> (int \<times> int) list" where
  "getAllValidPositions s = playPositions (rows s) (cols s)"

definition getEdgeScore :: "engine \<Rightarrow> int \<Rightarrow> int \<Rightarrow> int" where
  "getEdgeScore s r c = 10 - min (min (r - 1) (rows s - 2 - r)) (min (c - 1) (cols s - 2 - c))"

text \<open>
  \<^verbatim>\<open>positions.sort((a, b) => score(b) - score(a))\<close>: a stable sort by falling score.
\<close>

definition sortByEdge :: "engine \<Rightarrow> (int \<times> int) list \<Rightarrow> (int \<times> int) list" where
  "sortByEdge s positions = sort_key (\<lambda>(r, c). - getEdgeScore s r c) positions"

text \<open>
  \<^verbatim>\<open>letterMap\<close>: an object used as a dictionary, an association list in the order in
  which the keys were first inserted. \<^verbatim>\<open>Object.values\<close> lists first the values of the
  keys that are array indices (a canonical decimal numeral below \<^verbatim>\<open>2^32 - 1\<close>), by rising
  index, and then the values of the other keys in the order of their insertion. The
  keys are lower-case forms of letters of the game; none is the name of a property
  that an object inherits (\<^verbatim>\<open>constructor\<close>, \<^verbatim>\<open>__proto__\<close>).
\<close>

fun addToGroup :: "jsString \<Rightarrow> 'a \<Rightarrow> (jsString \<times> 'a list) list \<Rightarrow> (jsString \<times> 'a list) list" where
  "addToGroup k v [] = [(k, [v])]"
| "addToGroup k v ((k', vs) # m) =
     (if k' = k then (k', vs @ [v]) # m else (k', vs) # addToGroup k v m)"

definition groupBy :: "('a \<Rightarrow> jsString) \<Rightarrow> 'a list \<Rightarrow> (jsString \<times> 'a list) list" where
  "groupBy key xs = foldl (\<lambda>m x. addToGroup (key x) x m) [] xs"

definition isDigitChar :: "asciiChar \<Rightarrow> bool" where
  "isDigitChar c \<longleftrightarrow> 48 \<le> charCode c \<and> charCode c \<le> 57"

definition digitsValue :: "jsString \<Rightarrow> nat" where
  "digitsValue k = foldl (\<lambda>n c. 10 * n + (charCode c - 48)) 0 k"

definition isArrayIndex :: "jsString \<Rightarrow> bool" where
  "isArrayIndex k \<longleftrightarrow>
     k \<noteq> [] \<and> list_all isDigitChar k \<and> (length k = 1 \<or> charCode (hd k) \<noteq> 48)
     \<and> digitsValue k < 4294967295"

definition objectValues :: "(jsString \<times> 'a) list \<Rightarrow> 'a list" where
  "objectValues m =
     map snd (sort_key (\<lambda>(k, v). digitsValue k) (filter (\<lambda>(k, v). isArrayIndex k) m))
     @ map snd (filter (\<lambda>(k, v). \<not> isArrayIndex k) m)"

definition groupIntoLetterPairs :: "jsString list \<Rightarrow> jsString list list" where
  "groupIntoLetterPairs letters =
     filter (\<lambda>grp. length grp = 2) (objectValues (groupBy toLowerCase letters))"

text \<open>
  \<^verbatim>\<open>letter.toUpperCase().charCodeAt(0) - 65\<close>; the letters placed are never empty (of
  the empty string JavaScript gives NaN).
\<close>

definition letterType :: "jsString \<Rightarrow> int" where
  "letterType letter = (case toUpperCase letter of [] \<Rightarrow> 0 | c # cs \<Rightarrow> int (charCode c) - 65)"

text \<open>
  \<^verbatim>\<open>placeLetter\<close> draws the cell's \<^verbatim>\<open>index\<close>, \<^verbatim>\<open>Math.floor(Math.random() * 1000)\<close>.
  Its callers pass positions of the play area of the grid just initialised.
\<close>

definition placeLetter :: "int \<times> int \<Rightarrow> jsString \<Rightarrow> engine \<Rightarrow> failure + engine" where
  "placeLetter position letter s =
     (case random s of
        [] \<Rightarrow> Inl OutOfRandom
      | r # rnd \<Rightarrow>
          Inr (s\<lparr>pictures := setCell (pictures s) (fst position) (snd position)
                    \<lparr>isEmpty = False, type = letterType letter, pic = letter,
                     index = Some (int (r mod 1000))\<rparr>,
                 random := rnd\<rparr>))"

text \<open>
  The loop of \<^verbatim>\<open>generateMapWithEdgePriority\<close>, at the index \<open>i\<close>; \<^verbatim>\<open>positions[i * 2 + 1]\<close>
  beyond the array is \<^verbatim>\<open>undefined\<close>, and \<^verbatim>\<open>placeLetter\<close> then raises a TypeError.
\<close>

fun placePairs :: "(int \<times> int) list \<Rightarrow> jsString list list \<Rightarrow> nat \<Rightarrow> engine \<Rightarrow> failure + engine" where
  "placePairs positions [] i s = Inr s"
| "placePairs positions (pair # letterPairs) i s =
     (if i * 2 < length positions then
        (case placeLetter (positions ! (i * 2)) (pair ! 0) s of
           Inl e \<Rightarrow> Inl e
         | Inr s1 \<Rightarrow>
             if i * 2 + 1 < length positions then
               (case placeLetter (positions ! (i * 2 + 1)) (pair ! 1) s1 of
                  Inl e \<Rightarrow> Inl e
                | Inr s2 \<Rightarrow> placePairs positions letterPairs (i + 1) s2)
             else Inl TypeError)
      else Inr s)"

definition generateMapWithEdgePriority :: "engine \<Rightarrow> failure + engine" where
  "generateMapWithEdgePriority s =
     (case generateLetterPairs s of
        Inl e \<Rightarrow> Inl e
      | Inr (letters, s1) \<Rightarrow>
          placePairs (sortByEdge s1 (getAllValidPositions s1)) (groupIntoLetterPairs letters) 0 s1)"

text \<open>
  \<^verbatim>\<open>array.sort(() => Math.random() - 0.5)\<close>: the comparator is inconsistent, so the
  order that results is up to the JavaScript engine; it is a rearrangement of the
  array. The model draws one random number per element, the position of the next
  element among those left, so that every rearrangement can result.
\<close>

fun shuffleLoop :: "nat \<Rightarrow> 'a list \<Rightarrow> nat list \<Rightarrow> failure + ('a list \<times> nat list)" where
  "shuffleLoop 0 xs rnd = Inr ([], rnd)"
| "shuffleLoop (Suc n) xs [] = Inl OutOfRandom"
| "shuffleLoop (Suc n) xs (r # rnd) =
     (let k = r mod length xs in
      case shuffleLoop n (take k xs @ drop (Suc k) xs) rnd of
        Inl e \<Rightarrow> Inl e
      | Inr (ys, rnd') \<Rightarrow> Inr (xs ! k # ys, rnd'))"

definition randomSort :: "'a list \<Rightarrow> engine \<Rightarrow> failure + ('a list \<times> engine)" where
  "randomSort xs s =
     (case shuffleLoop (length xs) xs (random s) of
        Inl e \<Rightarrow> Inl e
      | Inr (ys, rnd) \<Rightarrow> Inr (ys, s\<lparr>random := rnd\<rparr>))"

text \<open>
  The loops of \<^verbatim>\<open>generateMapTraditional\<close> walk the play area row by row and place the
  next letter while letters are left: the positions are paired with the letters.
\<close>

fun placeAll :: "((int \<times> int) \<times> jsString) list \<Rightarrow> engine \<Rightarrow> failure + engine" where
  "placeAll [] s = Inr s"
| "placeAll ((position, letter) # rest) s =
     (case placeLetter position letter s of Inl e \<Rightarrow> Inl e | Inr s1 \<Rightarrow> placeAll rest s1)"

definition generateMapTraditional :: "engine \<Rightarrow> failure + engine" where
  "generateMapTraditional s =
     (case generateLetterPairs s of
        Inl e \<Rightarrow> Inl e
      | Inr (letters, s1) \<Rightarrow>
          (case randomSort letters s1 of
             Inl e \<Rightarrow> Inl e
           | Inr (shuffled, s2) \<Rightarrow> placeAll (zip (playPositions (rows s2) (cols s2)) shuffled) s2))"

text \<open>
  \<^verbatim>\<open>generateSolvableTemplate\<close>: the slots \<^verbatim>\<open>(i, j)\<close> with \<^verbatim>\<open>j = 1, 3, ... < cols - 3\<close> of
  the rows \<^verbatim>\<open>i\<close>, in the order of the loops; both loops end when the pairs run out.
\<close>

definition templateSlots :: "int \<Rightarrow> int \<Rightarrow> (int \<times> int) list" where
  "templateSlots nrows ncols =
     concat (map (\<lambda>i. map (\<lambda>j. (i, j)) (filter (\<lambda>j. odd j) [1 .. ncols - 4])) [1 .. nrows - 2])"

fun placeTemplate :: "((int \<times> int) \<times> jsString list) list \<Rightarrow> engine \<Rightarrow> failure + engine" where
  "placeTemplate [] s = Inr s"
| "placeTemplate (((i, j), pair) # rest) s =
     (case placeLetter (i, j) (pair ! 0) s of
        Inl e \<Rightarrow> Inl e
      | Inr s1 \<Rightarrow>
          (case placeLetter (i, j + 1) (pair ! 1) s1 of
             Inl e \<Rightarrow> Inl e
           | Inr s2 \<Rightarrow> placeTemplate rest s2))"

definition generateSolvableTemplate :: "engine \<Rightarrow> failure + engine" where
  "generateSolvableTemplate s =
     (case generateLetterPairs (initializeEmptyMap s) of
        Inl e \<Rightarrow> Inl e
      | Inr (letters, s1) \<Rightarrow>
          placeTemplate (zip (templateSlots (rows s1) (cols s1)) (groupIntoLetterPairs letters)) s1)"

text \<open>
  The \<^verbatim>\<open>do ... while\<close> loop of \<^verbatim>\<open>generateRandomMap\<close> at the counter \<open>attempts\<close>; the result
  carries the counter the loop ends with.
\<close>

function generateRandomMapLoop :: "engine \<Rightarrow> nat \<Rightarrow> failure + (engine \<times> nat)" where
  "generateRandomMapLoop s attempts =
     (case (if attempts < 15 then generateMapWithEdgePriority (initializeEmptyMap s)
            else generateMapTraditional (initializeEmptyMap s)) of
        Inl e \<Rightarrow> Inl e
      | Inr s1 \<Rightarrow>
          (case isSolvableE s1 of
             (solvable, s2) \<Rightarrow>
               if \<not> solvable \<and> attempts + 1 < 30 then generateRandomMapLoop s2 (attempts + 1)
               else Inr (s2, attempts + 1)))"
  by pat_completeness auto
termination
  by (relation "measure (\<lambda>(s, attempts). 30 - attempts)") auto

declare generateRandomMapLoop.simps [simp del]

definition generateRandomMap :: "engine \<Rightarrow> failure + engine" where
  "generateRandomMap s =
     (case generateRandomMapLoop s 0 of
        Inl e \<Rightarrow> Inl e
      | Inr (s1, attempts) \<Rightarrow>
          if attempts \<ge> 30 then generateSolvableTemplate (notify (ConsoleWarn TemplateUsed) s1)
          else Inr s1)"

function createMapLoop :: "engine \<Rightarrow> nat \<Rightarrow> failure + (engine \<times> nat)" where
  "createMapLoop s attempts =
     (case generateRandomMap s of
        Inl e \<Rightarrow> Inl e
      | Inr s1 \<Rightarrow>
          (case isSolvableE s1 of
             (solvable, s2) \<Rightarrow>
               if \<not> solvable \<and> attempts + 1 < 100 then createMapLoop s2 (attempts + 1)
               else Inr (s2, attempts + 1)))"
  by pat_completeness auto
termination
  by (relation "measure (\<lambda>(s, attempts). 100 - attempts)") auto

declare createMapLoop.simps [simp del]

definition createMap :: "engine \<Rightarrow> failure + engine" where
  "createMap s =
     (case createMapLoop s 0 of
        Inl e \<Rightarrow> Inl e
      | Inr (s1, attempts) \<Rightarrow>
          if attempts \<ge> 100 then Inr (notify (ConsoleWarn MapUnsolvable) s1) else Inr s1)"

section \<open>Reshuffle engine\<close>

text \<open>
  The loops that walk the play area read \<^verbatim>\<open>this.pictures[i][j]\<close> for every position of
  the play area. Before the first \<^verbatim>\<open>init\<close> the grid is the empty array, and such a read
  raises a TypeError; \<open>gridReadable\<close> says that every position of the play area is
  inside the grid.
\<close>

definition gridReadable :: "engine \<Rightarrow> bool" where
  "gridReadable s = list_all (\<lambda>(i, j). inGrid (pictures s) i j) (playPositions (rows s) (cols s))"

text \<open>\<^verbatim>\<open>CharacterInfo\<close>: type, pic and index; \<^verbatim>\<open>index || 0\<close> turns a missing index into 0.\<close>

type_synonym characterInfo = "int \<times> jsString \<times> int"

definition collectCharacters :: "engine \<Rightarrow> characterInfo list" where
  "collectCharacters s =
     map (\<lambda>(i, j). let c = cellAt (pictures s) i j
                    in (type c, pic c, case index c of None \<Rightarrow> 0 | Some n \<Rightarrow> n))
         (occupiedPositions (rows s) (cols s) (pictures s))"

text \<open>The three assignments that copy a character into the cell at a position.\<close>

definition writeCharacter :: "grid \<Rightarrow> int \<times> int \<Rightarrow> characterInfo \<Rightarrow> grid" where
  "writeCharacter g position ch =
     (case (position, ch) of ((i, j), (t, p, ix)) \<Rightarrow>
        setCell g i j ((cellAt g i j)\<lparr>type := t, pic := p, index := Some ix\<rparr>))"

definition writeAll :: "((int \<times> int) \<times> characterInfo) list \<Rightarrow> grid \<Rightarrow> grid" where
  "writeAll assignments g = foldl (\<lambda>g' (position, ch). writeCharacter g' position ch) g assignments"

definition smartDisorderEdgeFirst :: "engine \<Rightarrow> failure + engine" where
  "smartDisorderEdgeFirst s =
     (let characters = collectCharacters s;
          positions = sortByEdge s (occupiedPositions (rows s) (cols s) (pictures s))
      in case randomSort characters s of
           Inl e \<Rightarrow> Inl e
         | Inr (shuffled, s1) \<Rightarrow>
             Inr (s1\<lparr>pictures := writeAll (zip positions shuffled) (pictures s1)\<rparr>))"

text \<open>
  The \<^verbatim>\<open>forEach\<close> over the letter groups of \<^verbatim>\<open>smartDisorderSpread\<close>, at the counter
  \<open>charIndex\<close>.
\<close>

fun spreadLoop :: "(int \<times> int) list \<Rightarrow> characterInfo list list \<Rightarrow> nat \<Rightarrow> grid \<Rightarrow> grid" where
  "spreadLoop positions [] charIndex g = g"
| "spreadLoop positions (grp # groups) charIndex g =
     (if length grp = 2 then
        (let pos1 = positions ! (charIndex mod length positions);
             pos2 = positions ! ((charIndex + length positions div 2) mod length positions);
             g1 = writeCharacter g pos1 (grp ! 0);
             g2 = writeCharacter g1 pos2 (grp ! 1)
         in spreadLoop positions groups (charIndex + 2) g2)
      else spreadLoop positions groups charIndex g)"

definition smartDisorderSpread :: "engine \<Rightarrow> engine" where
  "smartDisorderSpread s =
     (let characters = collectCharacters s;
          positions = occupiedPositions (rows s) (cols s) (pictures s);
          letterGroups = objectValues (groupBy (\<lambda>(t, p, ix). toLowerCase p) characters)
      in s\<lparr>pictures := spreadLoop positions letterGroups 0 (pictures s)\<rparr>)"

definition randomDisorder :: "engine \<Rightarrow> failure + engine" where
  "randomDisorder s =
     (let characters = collectCharacters s;
          positions = occupiedPositions (rows s) (cols s) (pictures s)
      in case randomSort characters s of
           Inl e \<Rightarrow> Inl e
         | Inr (shuffled, s1) \<Rightarrow>
             Inr (s1\<lparr>pictures := writeAll (zip positions shuffled) (pictures s1)\<rparr>))"

text \<open>
  \<^verbatim>\<open>generateLinearLayout\<close>: the slots \<^verbatim>\<open>(i, j)\<close>, \<^verbatim>\<open>j = 1, 3, ... < cols - 1\<close>, in the
  order of the loops; a slot takes the next pair only if its two cells are occupied.
\<close>

definition linearSlots :: "int \<Rightarrow> int \<Rightarrow> (int \<times> int) list" where
  "linearSlots nrows ncols =
     concat (map (\<lambda>i. map (\<lambda>j. (i, j)) (filter (\<lambda>j. odd j) [1 .. ncols - 2])) [1 .. nrows - 2])"

fun linearLoop :: "int \<Rightarrow> (int \<times> int) list \<Rightarrow> characterInfo list list \<Rightarrow> grid \<Rightarrow> grid" where
  "linearLoop ncols [] pairs g = g"
| "linearLoop ncols (slot # slots) [] g = g"
| "linearLoop ncols ((i, j) # slots) (pair # pairs) g =
     (if \<not> emptyAt g i j \<and> \<not> emptyAt g i (j + 1) then
        (let g1 = writeCharacter g (i, j) (pair ! 0);
             g2 = (if j + 1 < ncols - 1 then writeCharacter g1 (i, j + 1) (pair ! 1) else g1)
         in linearLoop ncols slots pairs g2)
      else linearLoop ncols slots (pair # pairs) g)"

definition generateLinearLayout :: "engine \<Rightarrow> engine" where
  "generateLinearLayout s =
     (let s1 = notify (ConsoleError LinearLayout) s;
          characters = collectCharacters s1;
          pairs = filter (\<lambda>grp. length grp = 2)
                    (objectValues (groupBy (\<lambda>(t, p, ix). toLowerCase p) characters))
      in s1\<lparr>pictures := linearLoop (cols s1) (linearSlots (rows s1) (cols s1)) pairs (pictures s1)\<rparr>)"

definition forceGenerateSolvableLayout :: "engine \<Rightarrow> failure + engine" where
  "forceGenerateSolvableLayout s =
     (case generateRandomMap (notify (ToastError ForcedLayout) (notify (ConsoleError ForcedLayout) s)) of
        Inl e \<Rightarrow> Inl e
      | Inr s1 \<Rightarrow>
          (case isSolvableE s1 of
             (solvable, s2) \<Rightarrow> if \<not> solvable then Inr (generateLinearLayout s2) else Inr s2))"

function disorderLoop :: "engine \<Rightarrow> nat \<Rightarrow> failure + (engine \<times> nat)" where
  "disorderLoop s attempts =
     (case (if attempts < 50 then smartDisorderEdgeFirst s
            else if attempts < 100 then Inr (smartDisorderSpread s)
            else randomDisorder s) of
        Inl e \<Rightarrow> Inl e
      | Inr s1 \<Rightarrow>
          (case isSolvableE s1 of
             (solvable, s2) \<Rightarrow>
               if \<not> solvable \<and> attempts + 1 < 200 then disorderLoop s2 (attempts + 1)
               else Inr (s2, attempts + 1)))"
  by pat_completeness auto
termination
  by (relation "measure (\<lambda>(s, attempts). 200 - attempts)") auto

declare disorderLoop.simps [simp del]

definition disorder :: "engine \<Rightarrow> failure + engine" where
  "disorder s =
     (if \<not> gridReadable s then Inl TypeError
      else
        (case disorderLoop s 0 of
           Inl e \<Rightarrow> Inl e
         | Inr (s1, attempts) \<Rightarrow>
             (case (if attempts \<ge> 200
                    then forceGenerateSolvableLayout (notify (ConsoleWarn ReshuffleUnsolvable) s1)
                    else Inr s1) of
                Inl e \<Rightarrow> Inl e
              | Inr s2 \<Rightarrow> Inr (renderMap s2))))"

section \<open>Game session\<close>

definition getActualLetterCount :: "engine \<Rightarrow> int" where
  "getActualLetterCount s = int (length (occupiedPositions (rows s) (cols s) (pictures s)))"

text \<open>
  \<^verbatim>\<open>init\<close>: the old interval is cleared and a new one set, so the countdown runs
  afterwards.
\<close>

definition init :: "engine \<Rightarrow> failure + engine" where
  "init s =
     (let s1 = setSelectedCell None
                 (s\<lparr>count := (rows s - 2) * (cols s - 2), remain := 0, pictures := [],
                    preClickInfo := None, leftTime := configInitialTime s, isAnimating := False\<rparr>);
          s2 = s1\<lparr>timer := True\<rparr>
      in case createMap s2 of
           Inl e \<Rightarrow> Inl e
         | Inr s3 \<Rightarrow>
             (case disorder s3 of
                Inl e \<Rightarrow> Inl e
              | Inr s4 \<Rightarrow> Inr (updateScore (s4\<lparr>remain := getActualLetterCount s4\<rparr>))))"

text \<open>The session as \<^verbatim>\<open>init\<close> has it just before it calls \<^verbatim>\<open>createMap\<close>.\<close>

definition initCleared :: "engine \<Rightarrow> engine" where
  "initCleared s =
     (setSelectedCell None
        (s\<lparr>count := (rows s - 2) * (cols s - 2), remain := 0, pictures := [],
           preClickInfo := None, leftTime := configInitialTime s, isAnimating := False\<rparr>))
     \<lparr>timer := True\<rparr>"

definition reset :: "engine \<Rightarrow> failure + engine" where
  "reset s = init s"

definition startGame :: "engine \<Rightarrow> failure + engine" where
  "startGame s = init s"

definition restartGame :: "engine \<Rightarrow> failure + engine" where
  "restartGame s =
     (case reset (setSelectedCell None (s\<lparr>score := 0, steps := 0, leftDisorderTime := 5\<rparr>)) of
        Inl e \<Rightarrow> Inl e
      | Inr s1 \<Rightarrow>
          (let s2 = emit OnScoreUpdate (ScoreUpdate (score s1)) s1
           in Inr (emit OnStepUpdate (StepUpdate (steps s2)) s2)))"

definition updateCountDown :: "engine \<Rightarrow> engine" where
  "updateCountDown s =
     (let s1 = emit OnTimeUpdate (TimeUpdate (leftTime s - 1)) (s\<lparr>leftTime := leftTime s - 1\<rparr>)
      in if leftTime s1 \<le> 0 then gameOver TimeExceeded s1 else s1)"

text \<open>The interval calls \<^verbatim>\<open>updateCountDown\<close> once a second for as long as it is running.\<close>

definition tick :: "engine \<Rightarrow> engine" where
  "tick s = (if timer s then updateCountDown s else s)"

definition handleDisorder :: "engine \<Rightarrow> failure + (bool \<times> engine)" where
  "handleDisorder s =
     (if leftDisorderTime s > 0 then
        (case disorder (s\<lparr>leftDisorderTime := leftDisorderTime s - 1\<rparr>) of
           Inl e \<Rightarrow> Inl e
         | Inr s1 \<Rightarrow> Inr (True, s1))
      else Inr (False, s))"

text \<open>
  The nested loops of \<^verbatim>\<open>getAvailableMatches\<close> over the occupied cells: every pair
  \<^verbatim>\<open>i < j\<close> in the order of the loops.
\<close>

definition indexPairs :: "nat \<Rightarrow> (nat \<times> nat) list" where
  "indexPairs n = concat (map (\<lambda>i. map (\<lambda>j. (i, j)) [i + 1 ..< n]) [0 ..< n])"

definition getAvailableMatches :: "engine \<Rightarrow> (clickInfo \<times> clickInfo) list" where
  "getAvailableMatches s =
     (let cells = map (\<lambda>(i, j). \<lparr>row = i, col = j,
                                 clickIndex = (case index (cellAt (pictures s) i j) of
                                                 None \<Rightarrow> 0 | Some n \<Rightarrow> n)\<rparr>)
                      (occupiedPositions (rows s) (cols s) (pictures s))
      in map (\<lambda>(i, j). (cells ! i, cells ! j))
           (filter (\<lambda>(i, j).
                let cell1 = cells ! i; cell2 = cells ! j;
                    pic1 = pic (cellAt (pictures s) (row cell1) (col cell1));
                    pic2 = pic (cellAt (pictures s) (row cell2) (col cell2))
                in isMatch pic1 pic2
                   \<and> fst (canCleanup (cols s) (rows s) (pictures s) (col cell1) (row cell1)
                             (col cell2) (row cell2)))
              (indexPairs (length cells))))"

definition checkCurrentDeadlock :: "engine \<Rightarrow> bool" where
  "checkCurrentDeadlock s \<longleftrightarrow> length (getAvailableMatches s) = 0 \<and> remain s > 0"

definition showHint :: "engine \<Rightarrow> engine" where
  "showHint s =
     (case getAvailableMatches s of
        [] \<Rightarrow> s
      | (cell1, cell2) # others \<Rightarrow>
          emit OnHint
            (Hint [(row cell1, col cell1, pic (cellAt (pictures s) (row cell1) (col cell1))),
                   (row cell2, col cell2, pic (cellAt (pictures s) (row cell2) (col cell2)))]) s)"

definition clearHint :: "engine \<Rightarrow> engine" where
  "clearHint s = emit OnHint (Hint []) s"

definition autoDisorder :: "engine \<Rightarrow> failure + (bool \<times> engine)" where
  "autoDisorder s =
     (if \<not> autoDisorderEnabled s \<or> leftDisorderTime s \<le> 0 then Inr (False, s)
      else
        (let s1 = notify (ToastError DeadlockAuto) (notify (ConsoleError DeadlockAuto) s)
         in case disorder (s1\<lparr>leftDisorderTime := leftDisorderTime s1 - 1\<rparr>) of
              Inl e \<Rightarrow> Inl e
            | Inr s2 \<Rightarrow> Inr (True, s2)))"

text \<open>
  \<^verbatim>\<open>updateSteps\<close> has three parts after the increment: the deadlock check of every
  step, the hint of the fifth step, and the limit of six steps.
\<close>

definition resolveDeadlock :: "engine \<Rightarrow> failure + engine" where
  "resolveDeadlock s =
     (if checkCurrentDeadlock s then
        (case autoDisorder s of
           Inl e \<Rightarrow> Inl e
         | Inr (reshuffled, s1) \<Rightarrow>
             if \<not> reshuffled then Inr (notify (ConsoleWarn DeadlockNeedsManual) s1) else Inr s1)
      else Inr s)"

definition hintAtStepFive :: "engine \<Rightarrow> engine" where
  "hintAtStepFive s = (if steps s = 5 \<and> remain s > 0 then showHint s else s)"

definition checkStepLimit :: "engine \<Rightarrow> engine" where
  "checkStepLimit s =
     (if steps s \<ge> 6 then
        (if remain s > 0 then gameOver StepsExceeded s else gameOver Normal s)
      else s)"

definition updateSteps :: "engine \<Rightarrow> failure + engine" where
  "updateSteps s =
     (let s1 = emit OnStepUpdate (StepUpdate (steps s + 1)) (s\<lparr>steps := steps s + 1\<rparr>)
      in if \<not> gridReadable s1 then Inl TypeError
         else (case resolveDeadlock s1 of
                 Inl e \<Rightarrow> Inl e
               | Inr s2 \<Rightarrow> Inr (checkStepLimit (hintAtStepFive s2))))"

definition addShakeEffect :: "(int \<times> int \<times> jsString) list \<Rightarrow> engine \<Rightarrow> engine" where
  "addShakeEffect cells s = emit OnShakeEffect (ShakeEffect cells) s"

definition updateStatus :: "int \<Rightarrow> int \<Rightarrow> int \<Rightarrow> int \<Rightarrow> engine \<Rightarrow> failure + engine" where
  "updateStatus preRow preCol curRow curCol s =
     (if \<not> inGrid (pictures s) preRow preCol \<or> \<not> inGrid (pictures s) curRow curCol then Inl TypeError
      else
        (let preLetter = pic (cellAt (pictures s) preRow preCol);
             curLetter = pic (cellAt (pictures s) curRow curCol);
             s1 = (if toUpperCase preLetter = targetLetter s \<or> toUpperCase curLetter = targetLetter s
                   then emit OnTargetLetterEliminated TargetLetterEliminated s else s);
             s2 = s1\<lparr>pictures := markEmpty (markEmpty (pictures s1) preRow preCol) curRow curCol\<rparr>
         in if remain s2 \<le> 0 then Inr (gameOver Normal s2) else Inr s2))"

text \<open>
  Calling a closure that \<^verbatim>\<open>checkMatch\<close> handed out: the success closure of a connected
  pair, the error closure of a rejected pair, or an empty closure.
\<close>

definition invoke :: "continuation \<Rightarrow> engine \<Rightarrow> failure + engine" where
  "invoke k s =
     (case k of
        MatchResolved preRow preCol curRow curCol preIndex curIndex \<Rightarrow>
          (case updateStatus preRow preCol curRow curCol s of
             Inl e \<Rightarrow> Inl e
           | Inr s1 \<Rightarrow>
               (case updateSteps (updateScore (renderMap s1)) of
                  Inl e \<Rightarrow> Inl e
                | Inr s2 \<Rightarrow> Inr (s2\<lparr>isAnimating := False\<rparr>)))
      | RejectResolved \<Rightarrow>
          (case updateSteps ((setSelectedCell None (s\<lparr>preClickInfo := None\<rparr>))\<lparr>isAnimating := False\<rparr>) of
             Inl e \<Rightarrow> Inl e
           | Inr s1 \<Rightarrow> Inr (addShakeEffect [] s1))
      | NoOp \<Rightarrow> Inr s)"

text \<open>
  \<^verbatim>\<open>drawLine\<close>: with \<^verbatim>\<open>onDrawLine\<close> set, the points and the two closures go to the
  callback, which calls one of them later or never; with \<^verbatim>\<open>onDrawLine\<close> null the success
  closure is called at once.
\<close>

definition drawLine :: "point list \<Rightarrow> continuation \<Rightarrow> continuation \<Rightarrow> engine \<Rightarrow> failure + engine" where
  "drawLine pts onSuccess onError s =
     (let s1 = setSelectedCell None s
      in if hooks s1 OnDrawLine then Inr (notify (DrawLine pts onSuccess onError) s1)
         else invoke onSuccess s1)"

text \<open>
  The two branches of \<^verbatim>\<open>checkMatch\<close> for a second pick whose letter matches the first:
  the pair connects, or it does not.
\<close>

definition matchConnected :: "clickInfo \<Rightarrow> clickInfo \<Rightarrow> point list \<Rightarrow> engine \<Rightarrow> failure + engine" where
  "matchConnected pre cur pts s =
     (let s1 = s\<lparr>score := score s + 100, remain := remain s - 2, isAnimating := True\<rparr>;
          s2 = emit OnAnimationStart (AnimationStart [(row pre, col pre), (row cur, col cur)]) s1
      in case drawLine pts
                (MatchResolved (row pre) (col pre) (row cur) (col cur) (clickIndex pre) (clickIndex cur))
                NoOp s2 of
           Inl e \<Rightarrow> Inl e
         | Inr s3 \<Rightarrow> Inr (setSelectedCell None (s3\<lparr>preClickInfo := None\<rparr>)))"

definition matchRejected :: "clickInfo \<Rightarrow> clickInfo \<Rightarrow> engine \<Rightarrow> failure + engine" where
  "matchRejected pre cur s =
     (let s1 = s\<lparr>isAnimating := True\<rparr>;
          s2 = addShakeEffect
                 [(row pre, col pre, pic (cellAt (pictures s1) (row pre) (col pre))),
                  (row cur, col cur, pic (cellAt (pictures s1) (row cur) (col cur)))] s1
      in drawLine [] NoOp RejectResolved s2)"

definition checkMatch :: "clickInfo \<Rightarrow> engine \<Rightarrow> failure + engine" where
  "checkMatch cur s =
     (if \<not> inGrid (pictures s) (row cur) (col cur) then Inl TypeError
      else if isEmpty (cellAt (pictures s) (row cur) (col cur)) then Inr s
      else if (case selectedCell s of None \<Rightarrow> False
               | Some sel \<Rightarrow> row sel = row cur \<and> col sel = col cur)
        then Inr ((setSelectedCell None s)\<lparr>preClickInfo := None\<rparr>)
      else
        (case preClickInfo s of
           None \<Rightarrow> Inr (setSelectedCell (Some cur) (s\<lparr>preClickInfo := Some cur\<rparr>))
         | Some pre \<Rightarrow>
             if \<not> inGrid (pictures s) (row pre) (col pre) then Inl TypeError
             else if isMatch (pic (cellAt (pictures s) (row pre) (col pre)))
                             (pic (cellAt (pictures s) (row cur) (col cur))) then
               (case canCleanup (cols s) (rows s) (pictures s) (col pre) (row pre) (col cur) (row cur) of
                  (True, pts) \<Rightarrow> matchConnected pre cur pts s
                | (False, pts) \<Rightarrow> matchRejected pre cur s)
             else Inr (setSelectedCell (Some cur) (s\<lparr>preClickInfo := Some cur\<rparr>))))"

definition handleCellClick :: "int \<Rightarrow> int \<Rightarrow> int \<Rightarrow> engine \<Rightarrow> failure + engine" where
  "handleCellClick r c i s =
     (if remain s \<le> 0 then Inr s
      else if isAnimating s then Inr s
      else checkMatch \<lparr>row = r, col = c, clickIndex = i\<rparr> (clearHint s))"

section \<open>Operations of a session\<close>

text \<open>
  What the host does with an engine: the public methods, the interval's tick, a call
  of a closure received through \<^verbatim>\<open>onDrawLine\<close>, an assignment to a callback field, and
  (model only) the numbers that \<^verbatim>\<open>Math.random\<close> returns next.
\<close>

datatype operation =
    Start
  | Restart
  | Click int int int
  | Acknowledge continuation
  | Tick
  | Reshuffle
  | SetTarget jsString
  | Destroy
  | Register hook bool
  | Supply "nat list"

definition perform :: "operation \<Rightarrow> engine \<Rightarrow> failure + engine" where
  "perform op s =
     (case op of
        Start \<Rightarrow> startGame s
      | Restart \<Rightarrow> restartGame s
      | Click r c i \<Rightarrow> handleCellClick r c i s
      | Acknowledge k \<Rightarrow> invoke k s
      | Tick \<Rightarrow> Inr (tick s)
      | Reshuffle \<Rightarrow> (case handleDisorder s of Inl e \<Rightarrow> Inl e | Inr (b, s1) \<Rightarrow> Inr s1)
      | SetTarget letter \<Rightarrow> Inr (setTargetLetter letter s)
      | Destroy \<Rightarrow> Inr (destroy s)
      | Register h b \<Rightarrow> Inr (s\<lparr>hooks := (hooks s)(h := b)\<rparr>)
      | Supply rnd \<Rightarrow> Inr (s\<lparr>random := rnd\<rparr>))"

fun runOps :: "operation list \<Rightarrow> engine \<Rightarrow> failure + engine" where
  "runOps [] s = Inr s"
| "runOps (op # ops) s = (case perform op s of Inl e \<Rightarrow> Inl e | Inr s1 \<Rightarrow> runOps ops s1)"

text \<open>The states a session can be in: those that operations lead to from a new engine.\<close>

inductive reachable :: "engine \<Rightarrow> bool" where
  fresh: "reachable (newEngine cfgCols cfgRows cfgTime)"
| step: "reachable s \<Longrightarrow> perform op s = Inr s' \<Longrightarrow> reachable s'"






definition finalSelectedCell :: "failure + engine \<Rightarrow> clickInfo option" where
  "finalSelectedCell r = (case r of Inl e \<Rightarrow> None | Inr s \<Rightarrow> selectedCell s)"

text \<open>
  Two sessions that differ at most in the grid, the trace and the random supply, the
  trace of the second extending that of the first: what the generator and the
  reshuffle may change.
\<close>

definition sameSession :: "engine \<Rightarrow> engine \<Rightarrow> bool" where
  "sameSession s s' \<longleftrightarrow>
     score s' = score s \<and> steps s' = steps s \<and> cols s' = cols s \<and> rows s' = rows s
     \<and> configInitialTime s' = configInitialTime s \<and> leftDisorderTime s' = leftDisorderTime s
     \<and> autoDisorderEnabled s' = autoDisorderEnabled s \<and> isAnimating s' = isAnimating s
     \<and> selectedCell s' = selectedCell s \<and> count s' = count s \<and> remain s' = remain s
     \<and> preClickInfo s' = preClickInfo s \<and> leftTime s' = leftTime s \<and> timer s' = timer s
     \<and> targetLetter s' = targetLetter s \<and> hooks s' = hooks s
     \<and> take (length (events s)) (events s') = events s"

text \<open>What a step of the session keeps: every field but those named.\<close>

definition keeps :: "engine \<Rightarrow> engine \<Rightarrow> bool" where
  "keeps s s' \<longleftrightarrow>
     score s' = score s \<and> cols s' = cols s \<and> rows s' = rows s
     \<and> configInitialTime s' = configInitialTime s
     \<and> autoDisorderEnabled s' = autoDisorderEnabled s
     \<and> count s' = count s \<and> remain s' = remain s
     \<and> leftTime s' = leftTime s \<and> (timer s' \<longrightarrow> timer s)
     \<and> targetLetter s' = targetLetter s \<and> hooks s' = hooks s
     \<and> leftDisorderTime s' \<le> leftDisorderTime s
     \<and> take (length (events s)) (events s') = events s"

text \<open>What the parts of a step keep besides: the step count, the lock and the picks.\<close>

definition keepsPlay :: "engine \<Rightarrow> engine \<Rightarrow> bool" where
  "keepsPlay s s' \<longleftrightarrow>
     keeps s s' \<and> steps s' = steps s \<and> isAnimating s' = isAnimating s
     \<and> preClickInfo s' = preClickInfo s \<and> selectedCell s' = selectedCell s"

text \<open>
  Which cells of a grid are empty; every position of the grid from the top left; and
  the property of the border that the session maintains: outside the play area every
  cell is the empty cell that \<^verbatim>\<open>initializeEmptyMap\<close> creates.
\<close>

definition occupancy :: "grid \<Rightarrow> bool list list" where
  "occupancy g = map (map isEmpty) g"

definition allPositions :: "int \<Rightarrow> int \<Rightarrow> (int \<times> int) list" where
  "allPositions nrows ncols = concat (map (\<lambda>i. map (\<lambda>j. (i, j)) [0 .. ncols - 1]) [0 .. nrows - 1])"

definition borderUntouched :: "int \<Rightarrow> int \<Rightarrow> grid \<Rightarrow> bool" where
  "borderUntouched nrows ncols g =
     list_all (\<lambda>(i, j). inPlayArea nrows ncols i j \<or> cellAt g i j = emptyCell) (allPositions nrows ncols)"

definition gridOK :: "engine \<Rightarrow> bool" where
  "gridOK s \<longleftrightarrow>
     wellFormed (rows s) (cols s) (pictures s) \<and> borderUntouched (rows s) (cols s) (pictures s)"

definition gridInvariant :: "engine \<Rightarrow> bool" where
  "gridInvariant s \<longleftrightarrow> pictures s = [] \<or> gridOK s"

text \<open>
  What a reshuffle keeps of a grid: its shape, its border and its occupancy; and the
  same for the grids of two sessions of equal dimensions.
\<close>

definition gridKept :: "int \<Rightarrow> int \<Rightarrow> grid \<Rightarrow> grid \<Rightarrow> bool" where
  "gridKept nrows ncols g g' \<longleftrightarrow>
     (wellFormed nrows ncols g \<longrightarrow> wellFormed nrows ncols g')
     \<and> (borderUntouched nrows ncols g \<longrightarrow> borderUntouched nrows ncols g')
     \<and> occupancy g' = occupancy g"

definition boardKept :: "engine \<Rightarrow> engine \<Rightarrow> bool" where
  "boardKept s s' \<longleftrightarrow>
     rows s' = rows s \<and> cols s' = cols s \<and> gridKept (rows s) (cols s) (pictures s) (pictures s')"

text \<open>
  A click on row \<open>r\<close>, column \<open>c\<close> that \<^verbatim>\<open>checkMatch\<close> treats as a second pick: the game
  is in progress and not locked, a first pick \<open>pre\<close> is recorded, the cell clicked is
  occupied and is not the selected cell; whether the letters of the two cells match;
  and whether \<^verbatim>\<open>canCleanup\<close> finds a path from the first pick to the cell clicked.
\<close>

definition secondPick :: "int \<Rightarrow> int \<Rightarrow> clickInfo \<Rightarrow> engine \<Rightarrow> bool" where
  "secondPick r c pre s \<longleftrightarrow>
     0 < remain s \<and> \<not> isAnimating s \<and> preClickInfo s = Some pre
     \<and> (case selectedCell s of None \<Rightarrow> True | Some sel \<Rightarrow> \<not> (row sel = r \<and> col sel = c))
     \<and> inGrid (pictures s) r c \<and> inGrid (pictures s) (row pre) (col pre)
     \<and> \<not> isEmpty (cellAt (pictures s) r c)"

definition lettersMatch :: "int \<Rightarrow> int \<Rightarrow> clickInfo \<Rightarrow> engine \<Rightarrow> bool" where
  "lettersMatch r c pre s \<longleftrightarrow>
     isMatch (pic (cellAt (pictures s) (row pre) (col pre))) (pic (cellAt (pictures s) r c))"

definition pathFound :: "int \<Rightarrow> int \<Rightarrow> clickInfo \<Rightarrow> engine \<Rightarrow> bool" where
  "pathFound r c pre s \<longleftrightarrow> fst (canCleanup (cols s) (rows s) (pictures s) (col pre) (row pre) c r)"

text \<open>Whether an event is a call of \<^verbatim>\<open>onDrawLine\<close>.\<close>

definition isDrawLine :: "event \<Rightarrow> bool" where
  "isDrawLine e = (case e of DrawLine pts k1 k2 \<Rightarrow> True | _ \<Rightarrow> False)"

section \<open>Example boards\<close>

text \<open>
  A grid of 4 rows and 5 columns with the letter \<^verbatim>\<open>a\<close> at row 1, column 1 and the letter
  \<^verbatim>\<open>A\<close> at row 2, column 3.
\<close>

definition twoLetterBoard :: grid where
  "twoLetterBoard =
     setCell (setCell (replicate 4 (replicate 5 emptyCell)) 1 1
                \<lparr>isEmpty = False, type = 0, pic = ascii ''a'', index = Some 0\<rparr>) 2 3
       \<lparr>isEmpty = False, type = 0, pic = ascii ''A'', index = Some 1\<rparr>"


definition startedEngine :: engine where
  "startedEngine = projr (runOps [Supply [0, 1, 2, 3], Start] (newEngine (Some 4) (Some 3) (Some 1)))"

text \<open>
  A grid of 5 rows and 5 columns whose centre cell \<^verbatim>\<open>a\<close> is enclosed by \<^verbatim>\<open>b\<close>, \<^verbatim>\<open>c\<close>, \<^verbatim>\<open>C\<close>
  and \<^verbatim>\<open>B\<close>, with \<^verbatim>\<open>A\<close> in the corner at row 1, column 1; and an engine on that grid with
  no callback set, whose first pick is the centre cell.
\<close>

definition letterCell :: "jsString \<Rightarrow> int \<Rightarrow> cellInfo" where
  "letterCell p n = \<lparr>isEmpty = False, type = 0, pic = p, index = Some n\<rparr>"

definition blockedBoard :: grid where
  "blockedBoard =
     setCell (setCell (setCell (setCell (setCell (setCell (replicate 5 (replicate 5 emptyCell))
       1 1 (letterCell (ascii ''A'') 0)) 1 2 (letterCell (ascii ''b'') 1)) 2 1 (letterCell (ascii ''c'') 2))
       2 2 (letterCell (ascii ''a'') 3)) 2 3 (letterCell (ascii ''C'') 4)) 3 2 (letterCell (ascii ''B'') 5)"

definition blockedEngine :: engine where
  "blockedEngine =
     (newEngine (Some 5) (Some 5) (Some 60))
       \<lparr>count := 9, remain := 6, pictures := blockedBoard, leftTime := 60, timer := True,
        preClickInfo := Some \<lparr>row = 2, col = 2, clickIndex = 0\<rparr>,
        selectedCell := Some \<lparr>row = 2, col = 2, clickIndex = 0\<rparr>\<rparr>"


text \<open>The same engine with every callback set.\<close>

definition watchedEngine :: engine where
  "watchedEngine = blockedEngine\<lparr>hooks := (\<lambda>h. True)\<rparr>"



section \<open>Properties of the connectivity resolver\<close>

lemma isRowEmpty_sym: "isRowEmpty g x1 y1 x2 y2 = isRowEmpty g x2 y2 x1 y1"
  by (auto simp: isRowEmpty_def min.commute max.commute)

lemma isColEmpty_sym: "isColEmpty g x1 y1 x2 y2 = isColEmpty g x2 y2 x1 y1"
  by (auto simp: isColEmpty_def min.commute max.commute)

lemma isRowEmpty_iff:
  "isRowEmpty g x1 y x2 y \<longleftrightarrow> (\<forall>m. min x1 x2 < m \<and> m < max x1 x2 \<longrightarrow> emptyAt g y m)"
  by (auto simp: isRowEmpty_def list_all_iff)

lemma isColEmpty_iff:
  "isColEmpty g x y1 x y2 \<longleftrightarrow> (\<forall>m. min y1 y2 < m \<and> m < max y1 y2 \<longrightarrow> emptyAt g m x)"
  by (auto simp: isColEmpty_def list_all_iff)

lemma colDetourRight_sym:
  "x1 = x2 \<Longrightarrow> (colDetourRight ncols g x1 y1 x2 y2 i = None) = (colDetourRight ncols g x2 y2 x1 y1 i = None)"
proof (induction ncols g x1 y1 x2 y2 i rule: colDetourRight.induct)
  case (1 ncols g x1 y1 x2 y2 i)
  show ?case
    apply (subst colDetourRight.simps)
    apply (subst (2) colDetourRight.simps)
    using 1 by (auto simp: isColEmpty_sym[of g _ y2 _ y1])
qed

lemma colDetourLeft_sym:
  "x1 = x2 \<Longrightarrow> (colDetourLeft g x1 y1 x2 y2 i = None) = (colDetourLeft g x2 y2 x1 y1 i = None)"
proof (induction g x1 y1 x2 y2 i rule: colDetourLeft.induct)
  case (1 g x1 y1 x2 y2 i)
  show ?case
    apply (subst colDetourLeft.simps)
    apply (subst (2) colDetourLeft.simps)
    using 1 by (auto simp: isColEmpty_sym[of g _ y2 _ y1])
qed

lemma rowDetourDown_sym:
  "y1 = y2 \<Longrightarrow> (rowDetourDown nrows g x1 y1 x2 y2 i = None) = (rowDetourDown nrows g x2 y2 x1 y1 i = None)"
proof (induction nrows g x1 y1 x2 y2 i rule: rowDetourDown.induct)
  case (1 nrows g x1 y1 x2 y2 i)
  show ?case
    apply (subst rowDetourDown.simps)
    apply (subst (2) rowDetourDown.simps)
    using 1 by (auto simp: isRowEmpty_sym[of g x2 _ x1 _])
qed

lemma rowDetourUp_sym:
  "y1 = y2 \<Longrightarrow> (rowDetourUp g x1 y1 x2 y2 i = None) = (rowDetourUp g x2 y2 x1 y1 i = None)"
proof (induction g x1 y1 x2 y2 i rule: rowDetourUp.induct)
  case (1 g x1 y1 x2 y2 i)
  show ?case
    apply (subst rowDetourUp.simps)
    apply (subst (2) rowDetourUp.simps)
    using 1 by (auto simp: isRowEmpty_sym[of g x2 _ x1 _])
qed

lemma sameColumn_sym:
  "(sameColumn ncols g x1 y1 x2 y2 = None) = (sameColumn ncols g x2 y2 x1 y1 = None)"
  using colDetourRight_sym[of x1 x2 ncols g y1 y2 1] colDetourLeft_sym[of x1 x2 g y1 y2 1]
    isColEmpty_sym[of g x1 y1 x2 y2]
  by (auto simp: sameColumn_def abs_minus_commute
           split: option.splits)

lemma sameRow_sym:
  "(sameRow nrows g x1 y1 x2 y2 = None) = (sameRow nrows g x2 y2 x1 y1 = None)"
  using rowDetourDown_sym[of y1 y2 nrows g x1 x2 1] rowDetourUp_sym[of y1 y2 g x1 x2 1]
    isRowEmpty_sym[of g x1 y1 x2 y2]
  by (auto simp: sameRow_def abs_minus_commute
           split: option.splits)

lemma oneTurn_sym:
  "(oneTurn g x1 y1 x2 y2 = None) = (oneTurn g x2 y2 x1 y1 = None)"
  by (auto simp: oneTurn_def isRowEmpty_sym[of g x2 _ x1 _] isColEmpty_sym[of g _ y2 _ y1])


lemma twoTurnRight_iff:
  "twoTurnRight ncols g x1 y1 x2 y2 i \<noteq> None \<longleftrightarrow>
     (\<exists>k. i < k \<and> k < ncols \<and> (\<forall>m. i < m \<and> m \<le> k \<longrightarrow> emptyAt g y1 m)
          \<and> isColEmpty g k y1 k y2 \<and> isRowEmpty g k y2 x2 y2 \<and> emptyAt g y2 k)"
proof (induction ncols g x1 y1 x2 y2 i rule: twoTurnRight.induct)
  case (1 ncols g x1 y1 x2 y2 i)
  let ?Q = "\<lambda>k. isColEmpty g k y1 k y2 \<and> isRowEmpty g k y2 x2 y2 \<and> emptyAt g y2 k"
  let ?P = "\<lambda>i k. i < k \<and> k < ncols \<and> (\<forall>m. i < m \<and> m \<le> k \<longrightarrow> emptyAt g y1 m) \<and> ?Q k"
  show ?case
  proof (cases "i + 1 < ncols \<and> emptyAt g y1 (i + 1)")
    case False
    have "\<not> (\<exists>k. ?P i k)"
    proof
      assume "\<exists>k. ?P i k"
      then obtain k where k: "?P i k" by blast
      hence "i + 1 < ncols" "emptyAt g y1 (i + 1)" by auto
      with False show False by simp
    qed
    moreover have "twoTurnRight ncols g x1 y1 x2 y2 i = None"
      using False by (subst twoTurnRight.simps) auto
    ultimately show ?thesis by simp
  next
    case T: True
    show ?thesis
    proof (cases "?Q (i + 1)")
      case True
      have "\<And>m. i < m \<and> m \<le> i + 1 \<Longrightarrow> m = i + 1" by linarith
      hence "\<forall>m. i < m \<and> m \<le> i + 1 \<longrightarrow> emptyAt g y1 m" using T by blast
      hence "?P i (i + 1)" using T True by simp
      hence "\<exists>k. ?P i k" by blast
      moreover have "twoTurnRight ncols g x1 y1 x2 y2 i \<noteq> None"
        using T True by (subst twoTurnRight.simps) auto
      ultimately show ?thesis by simp
    next
      case False
      have step: "twoTurnRight ncols g x1 y1 x2 y2 i = twoTurnRight ncols g x1 y1 x2 y2 (i + 1)"
        using T False by (subst twoTurnRight.simps) auto
      have ih: "twoTurnRight ncols g x1 y1 x2 y2 (i + 1) \<noteq> None \<longleftrightarrow> (\<exists>k. ?P (i + 1) k)"
        using 1[of] T False by blast
      have "(\<exists>k. ?P (i + 1) k) \<longleftrightarrow> (\<exists>k. ?P i k)"
      proof
        assume "\<exists>k. ?P (i + 1) k"
        then obtain k where k: "?P (i + 1) k" by blast
        have "\<forall>m. i < m \<and> m \<le> k \<longrightarrow> emptyAt g y1 m"
        proof (intro allI impI)
          fix m assume "i < m \<and> m \<le> k"
          then consider "m = i + 1" | "i + 1 < m \<and> m \<le> k" by linarith
          then show "emptyAt g y1 m" using T k by cases auto
        qed
        with k have "?P i k" by auto
        thus "\<exists>k. ?P i k" by blast
      next
        assume "\<exists>k. ?P i k"
        then obtain k where k: "?P i k" by blast
        with False have "k \<noteq> i + 1" by auto
        with k have "?P (i + 1) k" by auto
        thus "\<exists>k. ?P (i + 1) k" by blast
      qed
      with step ih show ?thesis by simp
    qed
  qed
qed


lemma twoTurnLeft_iff:
  "twoTurnLeft g x1 y1 x2 y2 i \<noteq> None \<longleftrightarrow>
     (\<exists>k. 0 \<le> k \<and> k < i \<and> (\<forall>m. k \<le> m \<and> m < i \<longrightarrow> emptyAt g y1 m)
          \<and> isColEmpty g k y1 k y2 \<and> isRowEmpty g k y2 x2 y2 \<and> emptyAt g y2 k)"
proof (induction g x1 y1 x2 y2 i rule: twoTurnLeft.induct)
  case (1 g x1 y1 x2 y2 i)
  let ?Q = "\<lambda>k. isColEmpty g k y1 k y2 \<and> isRowEmpty g k y2 x2 y2 \<and> emptyAt g y2 k"
  let ?P = "\<lambda>i k. 0 \<le> k \<and> k < i \<and> (\<forall>m. k \<le> m \<and> m < i \<longrightarrow> emptyAt g y1 m) \<and> ?Q k"
  show ?case
  proof (cases "i - 1 \<ge> 0 \<and> emptyAt g y1 (i - 1)")
    case False
    have "\<not> (\<exists>k. ?P i k)"
    proof
      assume "\<exists>k. ?P i k"
      then obtain k where k: "?P i k" by blast
      hence "i - 1 \<ge> 0" "emptyAt g y1 (i - 1)" by auto
      with False show False by simp
    qed
    moreover have "twoTurnLeft g x1 y1 x2 y2 i = None"
      using False by (subst twoTurnLeft.simps) auto
    ultimately show ?thesis by simp
  next
    case T: True
    show ?thesis
    proof (cases "?Q (i - 1)")
      case True
      have "\<And>m. i - 1 \<le> m \<and> m < i \<Longrightarrow> m = i - 1" by linarith
      hence "\<forall>m. i - 1 \<le> m \<and> m < i \<longrightarrow> emptyAt g y1 m" using T by blast
      hence "?P i (i - 1)" using T True by simp
      hence "\<exists>k. ?P i k" by blast
      moreover have "twoTurnLeft g x1 y1 x2 y2 i \<noteq> None"
        using T True by (subst twoTurnLeft.simps) auto
      ultimately show ?thesis by simp
    next
      case False
      have step: "twoTurnLeft g x1 y1 x2 y2 i = twoTurnLeft g x1 y1 x2 y2 (i - 1)"
        using T False by (subst twoTurnLeft.simps) auto
      have ih: "twoTurnLeft g x1 y1 x2 y2 (i - 1) \<noteq> None \<longleftrightarrow> (\<exists>k. ?P (i - 1) k)"
        using 1[of] T False by blast
      have "(\<exists>k. ?P (i - 1) k) \<longleftrightarrow> (\<exists>k. ?P i k)"
      proof
        assume "\<exists>k. ?P (i - 1) k"
        then obtain k where k: "?P (i - 1) k" by blast
        have "\<forall>m. k \<le> m \<and> m < i \<longrightarrow> emptyAt g y1 m"
        proof (intro allI impI)
          fix m assume "k \<le> m \<and> m < i"
          then consider "m = i - 1" | "k \<le> m \<and> m < i - 1" by linarith
          then show "emptyAt g y1 m" using T k by cases auto
        qed
        with k have "?P i k" by auto
        thus "\<exists>k. ?P i k" by blast
      next
        assume "\<exists>k. ?P i k"
        then obtain k where k: "?P i k" by blast
        with False have "k \<noteq> i - 1" by auto
        with k have "?P (i - 1) k" by auto
        thus "\<exists>k. ?P (i - 1) k" by blast
      qed
      with step ih show ?thesis by simp
    qed
  qed
qed

lemma twoTurnDown_iff:
  "twoTurnDown nrows g x1 y1 x2 y2 i \<noteq> None \<longleftrightarrow>
     (\<exists>k. i < k \<and> k < nrows \<and> (\<forall>m. i < m \<and> m \<le> k \<longrightarrow> emptyAt g m x1)
          \<and> isRowEmpty g x1 k x2 k \<and> isColEmpty g x2 k x2 y2 \<and> emptyAt g k x2)"
proof (induction nrows g x1 y1 x2 y2 i rule: twoTurnDown.induct)
  case (1 nrows g x1 y1 x2 y2 i)
  let ?Q = "\<lambda>k. isRowEmpty g x1 k x2 k \<and> isColEmpty g x2 k x2 y2 \<and> emptyAt g k x2"
  let ?P = "\<lambda>i k. i < k \<and> k < nrows \<and> (\<forall>m. i < m \<and> m \<le> k \<longrightarrow> emptyAt g m x1) \<and> ?Q k"
  show ?case
  proof (cases "i + 1 < nrows \<and> emptyAt g (i + 1) x1")
    case False
    have "\<not> (\<exists>k. ?P i k)"
    proof
      assume "\<exists>k. ?P i k"
      then obtain k where k: "?P i k" by blast
      hence "i + 1 < nrows" "emptyAt g (i + 1) x1" by auto
      with False show False by simp
    qed
    moreover have "twoTurnDown nrows g x1 y1 x2 y2 i = None"
      using False by (subst twoTurnDown.simps) auto
    ultimately show ?thesis by simp
  next
    case T: True
    show ?thesis
    proof (cases "?Q (i + 1)")
      case True
      have "\<And>m. i < m \<and> m \<le> i + 1 \<Longrightarrow> m = i + 1" by linarith
      hence "\<forall>m. i < m \<and> m \<le> i + 1 \<longrightarrow> emptyAt g m x1" using T by blast
      hence "?P i (i + 1)" using T True by simp
      hence "\<exists>k. ?P i k" by blast
      moreover have "twoTurnDown nrows g x1 y1 x2 y2 i \<noteq> None"
        using T True by (subst twoTurnDown.simps) auto
      ultimately show ?thesis by simp
    next
      case False
      have step: "twoTurnDown nrows g x1 y1 x2 y2 i = twoTurnDown nrows g x1 y1 x2 y2 (i + 1)"
        using T False by (subst twoTurnDown.simps) auto
      have ih: "twoTurnDown nrows g x1 y1 x2 y2 (i + 1) \<noteq> None \<longleftrightarrow> (\<exists>k. ?P (i + 1) k)"
        using 1[of] T False by blast
      have "(\<exists>k. ?P (i + 1) k) \<longleftrightarrow> (\<exists>k. ?P i k)"
      proof
        assume "\<exists>k. ?P (i + 1) k"
        then obtain k where k: "?P (i + 1) k" by blast
        have "\<forall>m. i < m \<and> m \<le> k \<longrightarrow> emptyAt g m x1"
        proof (intro allI impI)
          fix m assume "i < m \<and> m \<le> k"
          then consider "m = i + 1" | "i + 1 < m \<and> m \<le> k" by linarith
          then show "emptyAt g m x1" using T k by cases auto
        qed
        with k have "?P i k" by auto
        thus "\<exists>k. ?P i k" by blast
      next
        assume "\<exists>k. ?P i k"
        then obtain k where k: "?P i k" by blast
        with False have "k \<noteq> i + 1" by auto
        with k have "?P (i + 1) k" by auto
        thus "\<exists>k. ?P (i + 1) k" by blast
      qed
      with step ih show ?thesis by simp
    qed
  qed
qed

lemma twoTurnUp_iff:
  "twoTurnUp g x1 y1 x2 y2 i \<noteq> None \<longleftrightarrow>
     (\<exists>k. 0 \<le> k \<and> k < i \<and> (\<forall>m. k \<le> m \<and> m < i \<longrightarrow> emptyAt g m x1)
          \<and> isRowEmpty g x1 k x2 k \<and> isColEmpty g x2 k x2 y2 \<and> emptyAt g k x2)"
proof (induction g x1 y1 x2 y2 i rule: twoTurnUp.induct)
  case (1 g x1 y1 x2 y2 i)
  let ?Q = "\<lambda>k. isRowEmpty g x1 k x2 k \<and> isColEmpty g x2 k x2 y2 \<and> emptyAt g k x2"
  let ?P = "\<lambda>i k. 0 \<le> k \<and> k < i \<and> (\<forall>m. k \<le> m \<and> m < i \<longrightarrow> emptyAt g m x1) \<and> ?Q k"
  show ?case
  proof (cases "i - 1 \<ge> 0 \<and> emptyAt g (i - 1) x1")
    case False
    have "\<not> (\<exists>k. ?P i k)"
    proof
      assume "\<exists>k. ?P i k"
      then obtain k where k: "?P i k" by blast
      hence "i - 1 \<ge> 0" "emptyAt g (i - 1) x1" by auto
      with False show False by simp
    qed
    moreover have "twoTurnUp g x1 y1 x2 y2 i = None"
      using False by (subst twoTurnUp.simps) auto
    ultimately show ?thesis by simp
  next
    case T: True
    show ?thesis
    proof (cases "?Q (i - 1)")
      case True
      have "\<And>m. i - 1 \<le> m \<and> m < i \<Longrightarrow> m = i - 1" by linarith
      hence "\<forall>m. i - 1 \<le> m \<and> m < i \<longrightarrow> emptyAt g m x1" using T by blast
      hence "?P i (i - 1)" using T True by simp
      hence "\<exists>k. ?P i k" by blast
      moreover have "twoTurnUp g x1 y1 x2 y2 i \<noteq> None"
        using T True by (subst twoTurnUp.simps) auto
      ultimately show ?thesis by simp
    next
      case False
      have step: "twoTurnUp g x1 y1 x2 y2 i = twoTurnUp g x1 y1 x2 y2 (i - 1)"
        using T False by (subst twoTurnUp.simps) auto
      have ih: "twoTurnUp g x1 y1 x2 y2 (i - 1) \<noteq> None \<longleftrightarrow> (\<exists>k. ?P (i - 1) k)"
        using 1[of] T False by blast
      have "(\<exists>k. ?P (i - 1) k) \<longleftrightarrow> (\<exists>k. ?P i k)"
      proof
        assume "\<exists>k. ?P (i - 1) k"
        then obtain k where k: "?P (i - 1) k" by blast
        have "\<forall>m. k \<le> m \<and> m < i \<longrightarrow> emptyAt g m x1"
        proof (intro allI impI)
          fix m assume "k \<le> m \<and> m < i"
          then consider "m = i - 1" | "k \<le> m \<and> m < i - 1" by linarith
          then show "emptyAt g m x1" using T k by cases auto
        qed
        with k have "?P i k" by auto
        thus "\<exists>k. ?P i k" by blast
      next
        assume "\<exists>k. ?P i k"
        then obtain k where k: "?P i k" by blast
        with False have "k \<noteq> i - 1" by auto
        with k have "?P (i - 1) k" by auto
        thus "\<exists>k. ?P (i - 1) k" by blast
      qed
      with step ih show ?thesis by simp
    qed
  qed
qed


lemma row_run_right:
  "x1 < k \<Longrightarrow> (\<forall>m. x1 < m \<and> m \<le> k \<longrightarrow> emptyAt g y m) \<longleftrightarrow> isRowEmpty g x1 y k y \<and> emptyAt g y k"
  unfolding isRowEmpty_iff
proof -
  assume lt: "x1 < k"
  have "\<And>m. x1 < m \<and> m \<le> k \<longleftrightarrow> (min x1 k < m \<and> m < max x1 k) \<or> m = k" using lt by auto
  thus "(\<forall>m. x1 < m \<and> m \<le> k \<longrightarrow> emptyAt g y m) \<longleftrightarrow>
        (\<forall>m. min x1 k < m \<and> m < max x1 k \<longrightarrow> emptyAt g y m) \<and> emptyAt g y k" by blast
qed

lemma row_run_left:
  "k < x1 \<Longrightarrow> (\<forall>m. k \<le> m \<and> m < x1 \<longrightarrow> emptyAt g y m) \<longleftrightarrow> isRowEmpty g x1 y k y \<and> emptyAt g y k"
  unfolding isRowEmpty_iff
proof -
  assume lt: "k < x1"
  have "\<And>m. k \<le> m \<and> m < x1 \<longleftrightarrow> (min x1 k < m \<and> m < max x1 k) \<or> m = k" using lt by auto
  thus "(\<forall>m. k \<le> m \<and> m < x1 \<longrightarrow> emptyAt g y m) \<longleftrightarrow>
        (\<forall>m. min x1 k < m \<and> m < max x1 k \<longrightarrow> emptyAt g y m) \<and> emptyAt g y k" by blast
qed

lemma col_run_down:
  "y1 < k \<Longrightarrow> (\<forall>m. y1 < m \<and> m \<le> k \<longrightarrow> emptyAt g m x) \<longleftrightarrow> isColEmpty g x y1 x k \<and> emptyAt g k x"
  unfolding isColEmpty_iff
proof -
  assume lt: "y1 < k"
  have "\<And>m. y1 < m \<and> m \<le> k \<longleftrightarrow> (min y1 k < m \<and> m < max y1 k) \<or> m = k" using lt by auto
  thus "(\<forall>m. y1 < m \<and> m \<le> k \<longrightarrow> emptyAt g m x) \<longleftrightarrow>
        (\<forall>m. min y1 k < m \<and> m < max y1 k \<longrightarrow> emptyAt g m x) \<and> emptyAt g k x" by blast
qed

lemma col_run_up:
  "k < y1 \<Longrightarrow> (\<forall>m. k \<le> m \<and> m < y1 \<longrightarrow> emptyAt g m x) \<longleftrightarrow> isColEmpty g x y1 x k \<and> emptyAt g k x"
  unfolding isColEmpty_iff
proof -
  assume lt: "k < y1"
  have "\<And>m. k \<le> m \<and> m < y1 \<longleftrightarrow> (min y1 k < m \<and> m < max y1 k) \<or> m = k" using lt by auto
  thus "(\<forall>m. k \<le> m \<and> m < y1 \<longrightarrow> emptyAt g m x) \<longleftrightarrow>
        (\<forall>m. min y1 k < m \<and> m < max y1 k \<longrightarrow> emptyAt g m x) \<and> emptyAt g k x" by blast
qed

lemma twoTurn_columns_iff:
  assumes "0 \<le> x1" "x1 < ncols" "\<not> emptyAt g y1 x1"
  shows "(twoTurnRight ncols g x1 y1 x2 y2 x1 \<noteq> None \<or> twoTurnLeft g x1 y1 x2 y2 x1 \<noteq> None) \<longleftrightarrow>
     (\<exists>k. 0 \<le> k \<and> k < ncols \<and> isRowEmpty g x1 y1 k y1 \<and> emptyAt g y1 k
          \<and> isColEmpty g k y1 k y2 \<and> isRowEmpty g k y2 x2 y2 \<and> emptyAt g y2 k)"
    (is "?L \<longleftrightarrow> (\<exists>k. ?V k)")
proof
  assume ?L
  then show "\<exists>k. ?V k"
  proof
    assume "twoTurnRight ncols g x1 y1 x2 y2 x1 \<noteq> None"
    then obtain k where k: "x1 < k" "k < ncols" "\<forall>m. x1 < m \<and> m \<le> k \<longrightarrow> emptyAt g y1 m"
      "isColEmpty g k y1 k y2" "isRowEmpty g k y2 x2 y2" "emptyAt g y2 k"
      unfolding twoTurnRight_iff by blast
    from k(3) row_run_right[OF k(1), of g y1] have "isRowEmpty g x1 y1 k y1 \<and> emptyAt g y1 k" by blast
    with k assms have "?V k" by simp
    thus ?thesis by blast
  next
    assume "twoTurnLeft g x1 y1 x2 y2 x1 \<noteq> None"
    then obtain k where k: "0 \<le> k" "k < x1" "\<forall>m. k \<le> m \<and> m < x1 \<longrightarrow> emptyAt g y1 m"
      "isColEmpty g k y1 k y2" "isRowEmpty g k y2 x2 y2" "emptyAt g y2 k"
      unfolding twoTurnLeft_iff by blast
    from k(3) row_run_left[OF k(2), of g y1] have "isRowEmpty g x1 y1 k y1 \<and> emptyAt g y1 k" by blast
    with k assms have "?V k" by simp
    thus ?thesis by blast
  qed
next
  assume "\<exists>k. ?V k"
  then obtain k where k: "?V k" by blast
  with assms(3) have "k \<noteq> x1" by auto
  then consider "x1 < k" | "k < x1" by linarith
  then show ?L
  proof cases
    case 1
    with k row_run_right[OF 1, of g y1] have "twoTurnRight ncols g x1 y1 x2 y2 x1 \<noteq> None"
      unfolding twoTurnRight_iff by blast
    thus ?thesis by simp
  next
    case 2
    with k row_run_left[OF 2, of g y1] have "twoTurnLeft g x1 y1 x2 y2 x1 \<noteq> None"
      unfolding twoTurnLeft_iff by blast
    thus ?thesis by simp
  qed
qed

lemma twoTurn_rows_iff:
  assumes "0 \<le> y1" "y1 < nrows" "\<not> emptyAt g y1 x1"
  shows "(twoTurnDown nrows g x1 y1 x2 y2 y1 \<noteq> None \<or> twoTurnUp g x1 y1 x2 y2 y1 \<noteq> None) \<longleftrightarrow>
     (\<exists>k. 0 \<le> k \<and> k < nrows \<and> isColEmpty g x1 y1 x1 k \<and> emptyAt g k x1
          \<and> isRowEmpty g x1 k x2 k \<and> isColEmpty g x2 k x2 y2 \<and> emptyAt g k x2)"
    (is "?L \<longleftrightarrow> (\<exists>k. ?V k)")
proof
  assume ?L
  then show "\<exists>k. ?V k"
  proof
    assume "twoTurnDown nrows g x1 y1 x2 y2 y1 \<noteq> None"
    then obtain k where k: "y1 < k" "k < nrows" "\<forall>m. y1 < m \<and> m \<le> k \<longrightarrow> emptyAt g m x1"
      "isRowEmpty g x1 k x2 k" "isColEmpty g x2 k x2 y2" "emptyAt g k x2"
      unfolding twoTurnDown_iff by blast
    from k(3) col_run_down[OF k(1), of g x1] have "isColEmpty g x1 y1 x1 k \<and> emptyAt g k x1" by blast
    with k assms have "?V k" by simp
    thus ?thesis by blast
  next
    assume "twoTurnUp g x1 y1 x2 y2 y1 \<noteq> None"
    then obtain k where k: "0 \<le> k" "k < y1" "\<forall>m. k \<le> m \<and> m < y1 \<longrightarrow> emptyAt g m x1"
      "isRowEmpty g x1 k x2 k" "isColEmpty g x2 k x2 y2" "emptyAt g k x2"
      unfolding twoTurnUp_iff by blast
    from k(3) col_run_up[OF k(2), of g x1] have "isColEmpty g x1 y1 x1 k \<and> emptyAt g k x1" by blast
    with k assms have "?V k" by simp
    thus ?thesis by blast
  qed
next
  assume "\<exists>k. ?V k"
  then obtain k where k: "?V k" by blast
  with assms(3) have "k \<noteq> y1" by auto
  then consider "y1 < k" | "k < y1" by linarith
  then show ?L
  proof cases
    case 1
    with k col_run_down[OF 1, of g x1] have "twoTurnDown nrows g x1 y1 x2 y2 y1 \<noteq> None"
      unfolding twoTurnDown_iff by blast
    thus ?thesis by simp
  next
    case 2
    with k col_run_up[OF 2, of g x1] have "twoTurnUp g x1 y1 x2 y2 y1 \<noteq> None"
      unfolding twoTurnUp_iff by blast
    thus ?thesis by simp
  qed
qed

lemma twoTurns_iff:
  assumes "0 \<le> x1" "x1 < ncols" "0 \<le> y1" "y1 < nrows" "\<not> emptyAt g y1 x1"
  shows "twoTurns ncols nrows g x1 y1 x2 y2 \<noteq> None \<longleftrightarrow>
     x1 \<noteq> x2 \<and> y1 \<noteq> y2 \<and>
     ((\<exists>k. 0 \<le> k \<and> k < ncols \<and> isRowEmpty g x1 y1 k y1 \<and> emptyAt g y1 k
          \<and> isColEmpty g k y1 k y2 \<and> isRowEmpty g k y2 x2 y2 \<and> emptyAt g y2 k)
      \<or> (\<exists>k. 0 \<le> k \<and> k < nrows \<and> isColEmpty g x1 y1 x1 k \<and> emptyAt g k x1
          \<and> isRowEmpty g x1 k x2 k \<and> isColEmpty g x2 k x2 y2 \<and> emptyAt g k x2))"
proof -
  have "twoTurns ncols nrows g x1 y1 x2 y2 \<noteq> None \<longleftrightarrow>
        x1 \<noteq> x2 \<and> y1 \<noteq> y2 \<and>
        ((twoTurnRight ncols g x1 y1 x2 y2 x1 \<noteq> None \<or> twoTurnLeft g x1 y1 x2 y2 x1 \<noteq> None)
         \<or> (twoTurnDown nrows g x1 y1 x2 y2 y1 \<noteq> None \<or> twoTurnUp g x1 y1 x2 y2 y1 \<noteq> None))"
    by (auto simp: twoTurns_def split: option.splits)
  thus ?thesis
    unfolding twoTurn_columns_iff[OF assms(1,2,5)] twoTurn_rows_iff[OF assms(3,4,5)] .
qed

lemma twoTurns_sym:
  assumes "0 \<le> x1" "x1 < ncols" "0 \<le> y1" "y1 < nrows" "\<not> emptyAt g y1 x1"
    and "0 \<le> x2" "x2 < ncols" "0 \<le> y2" "y2 < nrows" "\<not> emptyAt g y2 x2"
  shows "(twoTurns ncols nrows g x1 y1 x2 y2 = None) = (twoTurns ncols nrows g x2 y2 x1 y1 = None)"
proof -
  have c: "\<And>k. (isRowEmpty g x1 y1 k y1 \<and> emptyAt g y1 k
          \<and> isColEmpty g k y1 k y2 \<and> isRowEmpty g k y2 x2 y2 \<and> emptyAt g y2 k)
       \<longleftrightarrow> (isRowEmpty g x2 y2 k y2 \<and> emptyAt g y2 k
          \<and> isColEmpty g k y2 k y1 \<and> isRowEmpty g k y1 x1 y1 \<and> emptyAt g y1 k)"
    using isRowEmpty_sym[of g x1 y1 _ y1] isRowEmpty_sym[of g _ y2 x2 y2] isColEmpty_sym[of g _ y1 _ y2]
    by blast
  have r: "\<And>k. (isColEmpty g x1 y1 x1 k \<and> emptyAt g k x1
          \<and> isRowEmpty g x1 k x2 k \<and> isColEmpty g x2 k x2 y2 \<and> emptyAt g k x2)
       \<longleftrightarrow> (isColEmpty g x2 y2 x2 k \<and> emptyAt g k x2
          \<and> isRowEmpty g x2 k x1 k \<and> isColEmpty g x1 k x1 y1 \<and> emptyAt g k x1)"
    using isColEmpty_sym[of g x1 y1 x1 _] isColEmpty_sym[of g x2 _ x2 y2] isRowEmpty_sym[of g x1 _ x2 _]
    by blast
  have "twoTurns ncols nrows g x1 y1 x2 y2 \<noteq> None \<longleftrightarrow> twoTurns ncols nrows g x2 y2 x1 y1 \<noteq> None"
    unfolding twoTurns_iff[OF assms(1-5)] twoTurns_iff[OF assms(6-10)]
    using c r by (auto simp: eq_commute[of x1 x2] eq_commute[of y1 y2])
  thus ?thesis by blast
qed

lemma canCleanup_fst:
  "fst (canCleanup ncols nrows g x1 y1 x2 y2) \<longleftrightarrow>
     sameColumn ncols g x1 y1 x2 y2 \<noteq> None \<or> sameRow nrows g x1 y1 x2 y2 \<noteq> None
     \<or> oneTurn g x1 y1 x2 y2 \<noteq> None \<or> twoTurns ncols nrows g x1 y1 x2 y2 \<noteq> None"
  by (auto simp: canCleanup_def split: option.splits)

text \<open>
  Claim C4. On a grid of \<open>nrows\<close> by \<open>ncols\<close> cells, for two occupied cells of the play
  area, \<^verbatim>\<open>canCleanup\<close> from the first to the second returns true exactly when
  \<^verbatim>\<open>canCleanup\<close> from the second to the first does (the points found may differ).
\<close>

theorem canCleanup_symmetric:
  assumes "wellFormed nrows ncols g"
    and "inPlayArea nrows ncols y1 x1" "inPlayArea nrows ncols y2 x2"
    and "\<not> emptyAt g y1 x1" "\<not> emptyAt g y2 x2"
  shows "fst (canCleanup ncols nrows g x1 y1 x2 y2) \<longleftrightarrow> fst (canCleanup ncols nrows g x2 y2 x1 y1)"
proof -
  from assms(2,3) have b: "0 \<le> x1" "x1 < ncols" "0 \<le> y1" "y1 < nrows"
      "0 \<le> x2" "x2 < ncols" "0 \<le> y2" "y2 < nrows"
    by (auto simp: inPlayArea_def)
  show ?thesis
    unfolding canCleanup_fst
    using sameColumn_sym[of ncols g x1 y1 x2 y2] sameRow_sym[of nrows g x1 y1 x2 y2]
      oneTurn_sym[of g x1 y1 x2 y2]
      twoTurns_sym[OF b(1-4) assms(4) b(5-8) assms(5)]
    by simp
qed

theorem canCleanup_symmetric_witness:
  "wellFormed 4 5 twoLetterBoard \<and> inPlayArea 4 5 1 1 \<and> inPlayArea 4 5 2 3
   \<and> \<not> emptyAt twoLetterBoard 1 1 \<and> \<not> emptyAt twoLetterBoard 2 3
   \<and> fst (canCleanup 5 4 twoLetterBoard 1 1 3 2) \<and> fst (canCleanup 5 4 twoLetterBoard 3 2 1 1)"
proof -
  have h: "wellFormed 4 5 twoLetterBoard" "inPlayArea 4 5 1 1" "inPlayArea 4 5 2 3"
      "\<not> emptyAt twoLetterBoard 1 1" "\<not> emptyAt twoLetterBoard 2 3"
    by code_simp+
  have c: "fst (canCleanup 5 4 twoLetterBoard 1 1 3 2)" by code_simp
  from canCleanup_symmetric[OF h] c h show ?thesis by simp
qed

section \<open>Properties of the solvability verifier\<close>

lemma backtrackLoop_step:
  assumes "i < length cells" "j < length cells"
    and "cells ! i = (row1, col1, pic1)" "cells ! j = (row2, col2, pic2)"
  shows "backtrackLoop nrows ncols st cells i j =
     (if isMatch pic1 pic2 then
        (if fst (canCleanup ncols nrows (testMap st) col1 row1 col2 row2) then
           (case backtrackSolve nrows ncols
                   (st\<lparr>thisPictures := TestRef,
                       testMap := markEmpty (markEmpty (testMap st) row1 col1) row2 col2\<rparr>)
                   (dropTwo cells i j) of
              (True, st3) \<Rightarrow> (True, st3\<lparr>thisPictures := thisPictures st\<rparr>)
            | (False, st3) \<Rightarrow>
                backtrackLoop nrows ncols
                  (st3\<lparr>testMap := setCell (setCell (testMap st3) row1 col1 (cellAt (testMap st) row1 col1))
                                      row2 col2 (cellAt (testMap st) row2 col2),
                       thisPictures := thisPictures st\<rparr>)
                  cells i (j + 1))
         else backtrackLoop nrows ncols st cells i (j + 1))
      else backtrackLoop nrows ncols st cells i (j + 1))"
  using assms
  by (subst backtrackLoop.simps) (simp add: Let_def deref_def)

lemma backtrack_frame:
  "thisPictures (snd (backtrackSolve nrows ncols st cells)) = thisPictures st
     \<and> liveMap (snd (backtrackSolve nrows ncols st cells)) = liveMap st"
  "thisPictures (snd (backtrackLoop nrows ncols st cells i j)) = thisPictures st
     \<and> liveMap (snd (backtrackLoop nrows ncols st cells i j)) = liveMap st"
proof (induction nrows ncols st cells and nrows ncols st cells i j rule: backtrackSolve_backtrackLoop.induct)
  case (1 nrows ncols st cells)
  then show ?case by (simp add: backtrackSolve.simps)
next
  case (2 nrows ncols st cells i j)
  show ?case
  proof (cases "i < length cells")
    case False
    then show ?thesis by (subst backtrackLoop.simps, subst (2) backtrackLoop.simps) simp
  next
    case i: True
    hence ni: "\<not> \<not> i < length cells" by simp
    show ?thesis
    proof (cases "j < length cells")
      case False
      with i 2(1) show ?thesis by (subst backtrackLoop.simps, subst (2) backtrackLoop.simps) simp
    next
      case j: True
      hence nj: "\<not> \<not> j < length cells" by simp
      obtain row1 col1 pic1 where c1: "cells ! i = (row1, col1, pic1)" by (cases "cells ! i") auto
      obtain row2 col2 pic2 where c2: "cells ! j = (row2, col2, pic2)" by (cases "cells ! j") auto
      note step = backtrackLoop_step[OF i j c1 c2, of nrows ncols st]
      show ?thesis
      proof (cases "isMatch pic1 pic2")
        case False
        from 2(5)[OF ni nj refl c1[symmetric] refl c2[symmetric] refl False]
        show ?thesis by (simp add: step False)
      next
        case m: True
        show ?thesis
        proof (cases "fst (canCleanup ncols nrows (testMap st) col1 row1 col2 row2)")
          case False
          hence "\<not> fst (canCleanup ncols nrows (deref (st\<lparr>thisPictures := TestRef\<rparr>)) col1 row1 col2 row2)"
            by (simp add: deref_def)
          from 2(4)[OF ni nj refl c1[symmetric] refl c2[symmetric] refl m refl refl this]
          show ?thesis by (simp add: step m False)
        next
          case cc: True
          hence cc': "fst (canCleanup ncols nrows (deref (st\<lparr>thisPictures := TestRef\<rparr>)) col1 row1 col2 row2)"
            by (simp add: deref_def)
          let ?xf = "st\<lparr>thisPictures := TestRef\<rparr>"
          let ?st2 = "?xf\<lparr>testMap := markEmpty (markEmpty (testMap ?xf) row1 col1) row2 col2\<rparr>"
          obtain b st3 where r: "backtrackSolve nrows ncols ?st2 (dropTwo cells i j) = (b, st3)"
            by (cases "backtrackSolve nrows ncols ?st2 (dropTwo cells i j)") auto
          have ih1: "thisPictures st3 = TestRef \<and> liveMap st3 = liveMap st"
            using 2(2)[OF ni nj refl c1[symmetric] refl c2[symmetric] refl m refl refl cc' refl refl refl] r
            by simp
          show ?thesis
          proof (cases b)
            case True
            with r ih1 show ?thesis by (simp add: step m cc)
          next
            case False
            hence bF: "b = False" by simp
            from 2(3)[OF ni nj refl c1[symmetric] refl c2[symmetric] refl m refl refl cc' refl refl refl r[symmetric] bF]
            have "thisPictures (snd (backtrackLoop nrows ncols
                   (st3\<lparr>testMap := setCell (setCell (testMap st3) row1 col1 (cellAt (testMap st) row1 col1))
                                      row2 col2 (cellAt (testMap st) row2 col2),
                       thisPictures := thisPictures st\<rparr>) cells i (j + 1))) = thisPictures st
               \<and> liveMap (snd (backtrackLoop nrows ncols
                   (st3\<lparr>testMap := setCell (setCell (testMap st3) row1 col1 (cellAt (testMap st) row1 col1))
                                      row2 col2 (cellAt (testMap st) row2 col2),
                       thisPictures := thisPictures st\<rparr>) cells i (j + 1))) = liveMap st3"
              by simp
            with r ih1 False show ?thesis
              by (simp add: step m cc)
          qed
        qed
      qed
    qed
  qed
qed

lemma isSolvableStore_frame:
  "thisPictures (snd (isSolvableStore nrows ncols g)) = LiveRef"
  "liveMap (snd (isSolvableStore nrows ncols g)) = g"
  using backtrack_frame(1)[of nrows ncols
          "\<lparr>thisPictures = LiveRef, liveMap = g, testMap = map (\<lambda>row. map (\<lambda>cell. cell) row) g\<rparr>"
          "map (\<lambda>(i, j). (i, j, pic (cellAt (map (\<lambda>row. map (\<lambda>cell. cell) row) g) i j)))
             (occupiedPositions nrows ncols (map (\<lambda>row. map (\<lambda>cell. cell) row) g))"]
  by (simp_all add: isSolvableStore_def Let_def)

lemma isSolvable_same_grid: "snd (isSolvable nrows ncols g) = g"
  using isSolvableStore_frame[of nrows ncols g]
  by (cases "isSolvableStore nrows ncols g") (simp add: isSolvable_def deref_def)

text \<open>
  Claim C9. A call of \<^verbatim>\<open>isSolvable\<close> leaves the live grid as it was: when the call
  returns, \<^verbatim>\<open>this.pictures\<close> refers to the live grid object again, that object was never
  written (so every \<^verbatim>\<open>isEmpty\<close>, \<^verbatim>\<open>type\<close>, \<^verbatim>\<open>pic\<close> and \<^verbatim>\<open>index\<close> is what it was),
  whatever the verifier answers; and on a grid without an occupied cell in the play
  area the answer is true.
\<close>

theorem isSolvable_leaves_grid:
  "thisPictures (snd (isSolvableStore nrows ncols g)) = LiveRef
   \<and> liveMap (snd (isSolvableStore nrows ncols g)) = g
   \<and> snd (isSolvable nrows ncols g) = g
   \<and> (occupiedPositions nrows ncols g = [] \<longrightarrow> fst (isSolvable nrows ncols g))"
proof -
  have none: "fst (isSolvable nrows ncols g)" if "occupiedPositions nrows ncols g = []"
    using that by (simp add: isSolvable_def isSolvableStore_def backtrackSolve.simps)
  from isSolvableStore_frame[of nrows ncols g] isSolvable_same_grid[of nrows ncols g] none
  show ?thesis by blast
qed

theorem isSolvable_leaves_grid_witness:
  "occupiedPositions 3 4 (replicate 3 (replicate 4 \<lparr>isEmpty = True, type = 0, pic = [], index = None\<rparr>)) = []
   \<and> fst (isSolvable 3 4 (replicate 3 (replicate 4 \<lparr>isEmpty = True, type = 0, pic = [], index = None\<rparr>)))"
proof -
  have e: "occupiedPositions 3 4 (replicate 3 (replicate 4 \<lparr>isEmpty = True, type = 0, pic = [], index = None\<rparr>)) = []"
    by code_simp
  with isSolvable_leaves_grid[of 3 4 "replicate 3 (replicate 4 \<lparr>isEmpty = True, type = 0, pic = [], index = None\<rparr>)"]
  show ?thesis by blast
qed

section \<open>What the generator and the reshuffle leave alone\<close>

lemma emit_fields [simp]:
  "score (emit h e s) = score s"
  "steps (emit h e s) = steps s"
  "cols (emit h e s) = cols s"
  "rows (emit h e s) = rows s"
  "configInitialTime (emit h e s) = configInitialTime s"
  "leftDisorderTime (emit h e s) = leftDisorderTime s"
  "autoDisorderEnabled (emit h e s) = autoDisorderEnabled s"
  "isAnimating (emit h e s) = isAnimating s"
  "selectedCell (emit h e s) = selectedCell s"
  "count (emit h e s) = count s"
  "remain (emit h e s) = remain s"
  "pictures (emit h e s) = pictures s"
  "preClickInfo (emit h e s) = preClickInfo s"
  "leftTime (emit h e s) = leftTime s"
  "timer (emit h e s) = timer s"
  "targetLetter (emit h e s) = targetLetter s"
  "hooks (emit h e s) = hooks s"
  "random (emit h e s) = random s"
  "events (emit h e s) = events s @ (if hooks s h then [e] else [])"
  by (simp_all add: emit_def)

lemma notify_fields [simp]:
  "score (notify e s) = score s"
  "steps (notify e s) = steps s"
  "cols (notify e s) = cols s"
  "rows (notify e s) = rows s"
  "configInitialTime (notify e s) = configInitialTime s"
  "leftDisorderTime (notify e s) = leftDisorderTime s"
  "autoDisorderEnabled (notify e s) = autoDisorderEnabled s"
  "isAnimating (notify e s) = isAnimating s"
  "selectedCell (notify e s) = selectedCell s"
  "count (notify e s) = count s"
  "remain (notify e s) = remain s"
  "pictures (notify e s) = pictures s"
  "preClickInfo (notify e s) = preClickInfo s"
  "leftTime (notify e s) = leftTime s"
  "timer (notify e s) = timer s"
  "targetLetter (notify e s) = targetLetter s"
  "hooks (notify e s) = hooks s"
  "random (notify e s) = random s"
  "events (notify e s) = events s @ [e]"
  by (simp_all add: notify_def)

lemma gameOver_fields [simp]:
  "score (gameOver t s) = score s"
  "steps (gameOver t s) = steps s"
  "cols (gameOver t s) = cols s"
  "rows (gameOver t s) = rows s"
  "configInitialTime (gameOver t s) = configInitialTime s"
  "leftDisorderTime (gameOver t s) = leftDisorderTime s"
  "autoDisorderEnabled (gameOver t s) = autoDisorderEnabled s"
  "isAnimating (gameOver t s) = isAnimating s"
  "selectedCell (gameOver t s) = selectedCell s"
  "count (gameOver t s) = count s"
  "remain (gameOver t s) = remain s"
  "pictures (gameOver t s) = pictures s"
  "preClickInfo (gameOver t s) = preClickInfo s"
  "leftTime (gameOver t s) = leftTime s"
  "targetLetter (gameOver t s) = targetLetter s"
  "hooks (gameOver t s) = hooks s"
  "random (gameOver t s) = random s"
  "timer (gameOver t s) = False"
  "events (gameOver t s) = events s @ (if hooks s OnGameOver then [GameOver t (score s)] else [])"
  by (simp_all add: gameOver_def)

lemma setSelectedCell_fields [simp]:
  "score (setSelectedCell c s) = score s"
  "steps (setSelectedCell c s) = steps s"
  "cols (setSelectedCell c s) = cols s"
  "rows (setSelectedCell c s) = rows s"
  "configInitialTime (setSelectedCell c s) = configInitialTime s"
  "leftDisorderTime (setSelectedCell c s) = leftDisorderTime s"
  "autoDisorderEnabled (setSelectedCell c s) = autoDisorderEnabled s"
  "isAnimating (setSelectedCell c s) = isAnimating s"
  "count (setSelectedCell c s) = count s"
  "remain (setSelectedCell c s) = remain s"
  "pictures (setSelectedCell c s) = pictures s"
  "preClickInfo (setSelectedCell c s) = preClickInfo s"
  "leftTime (setSelectedCell c s) = leftTime s"
  "timer (setSelectedCell c s) = timer s"
  "targetLetter (setSelectedCell c s) = targetLetter s"
  "hooks (setSelectedCell c s) = hooks s"
  "random (setSelectedCell c s) = random s"
  "selectedCell (setSelectedCell c s) = c"
  "events (setSelectedCell c s) =
     events s @ (if hooks s OnSelectedCellChange then [SelectedCellChange c] else [])"
  by (simp_all add: setSelectedCell_def)

lemma sameSession_refl [simp]: "sameSession s s"
  by (simp add: sameSession_def)

lemma sameSession_trans: "sameSession s s1 \<Longrightarrow> sameSession s1 s2 \<Longrightarrow> sameSession s s2"
  unfolding sameSession_def
  by (metis append_eq_conv_conj append_take_drop_id append.assoc)

lemma sameSession_notify [simp]: "sameSession s (notify e s)"
  by (simp add: sameSession_def)

lemma sameSession_emit [simp]: "sameSession s (emit h e s)"
  by (simp add: sameSession_def)

lemma sameSession_pictures [simp]: "sameSession s (s\<lparr>pictures := g\<rparr>)"
  by (simp add: sameSession_def)

lemma sameSession_random [simp]: "sameSession s (s\<lparr>random := g\<rparr>)"
  by (simp add: sameSession_def)

lemma sameSession_initializeEmptyMap [simp]: "sameSession s (initializeEmptyMap s)"
  by (simp add: initializeEmptyMap_def)

lemma sameSession_isSolvableE: "sameSession s (snd (isSolvableE s))"
  by (simp add: isSolvableE_def split: prod.splits)

lemma sameSession_generateLetterPairs:
  "generateLetterPairs s = Inr (ls, s') \<Longrightarrow> sameSession s s'"
  by (auto simp: generateLetterPairs_def Let_def split: sum.splits prod.splits)

lemma sameSession_placeLetter:
  "placeLetter p l s = Inr s' \<Longrightarrow> sameSession s s'"
  by (auto simp: placeLetter_def sameSession_def split: list.splits)

lemma sameSession_placePairs:
  "placePairs ps lps i s = Inr s' \<Longrightarrow> sameSession s s'"
proof (induction lps arbitrary: i s)
  case Nil
  then show ?case by simp
next
  case (Cons pair lps)
  then show ?case
    by (auto split: if_splits sum.splits
             dest!: sameSession_placeLetter intro: sameSession_trans)
qed


lemma sameSession_placeAll:
  "placeAll xs s = Inr s' \<Longrightarrow> sameSession s s'"
proof (induction xs arbitrary: s)
  case Nil
  then show ?case by simp
next
  case (Cons x xs)
  then show ?case
    by (cases x) (auto split: sum.splits dest!: sameSession_placeLetter intro: sameSession_trans)
qed

lemma sameSession_placeTemplate:
  "placeTemplate xs s = Inr s' \<Longrightarrow> sameSession s s'"
proof (induction xs arbitrary: s)
  case Nil
  then show ?case by simp
next
  case (Cons x xs)
  obtain i j pair where x: "x = ((i, j), pair)" by (cases x) auto
  from Cons.prems obtain s1 s2 where
    a: "placeLetter (i, j) (pair ! 0) s = Inr s1" and b: "placeLetter (i, j + 1) (pair ! 1) s1 = Inr s2"
    and c: "placeTemplate xs s2 = Inr s'"
    by (auto simp: x split: sum.splits)
  from sameSession_placeLetter[OF a] sameSession_placeLetter[OF b] Cons.IH[OF c]
  show ?case by (blast intro: sameSession_trans)
qed

lemma sameSession_randomSort:
  "randomSort xs s = Inr (ys, s') \<Longrightarrow> sameSession s s'"
  by (auto simp: randomSort_def split: sum.splits)

lemma sameSession_generateMapWithEdgePriority:
  "generateMapWithEdgePriority s = Inr s' \<Longrightarrow> sameSession s s'"
proof -
  assume g: "generateMapWithEdgePriority s = Inr s'"
  then obtain letters s1 where a: "generateLetterPairs s = Inr (letters, s1)"
    by (cases "generateLetterPairs s") (auto simp: generateMapWithEdgePriority_def)
  with g have b: "placePairs (sortByEdge s1 (getAllValidPositions s1)) (groupIntoLetterPairs letters) 0 s1 = Inr s'"
    by (simp add: generateMapWithEdgePriority_def)
  from sameSession_trans[OF sameSession_generateLetterPairs[OF a] sameSession_placePairs[OF b]]
  show ?thesis .
qed

lemma sameSession_generateMapTraditional:
  "generateMapTraditional s = Inr s' \<Longrightarrow> sameSession s s'"
proof -
  assume g: "generateMapTraditional s = Inr s'"
  then obtain letters s1 where a: "generateLetterPairs s = Inr (letters, s1)"
    by (cases "generateLetterPairs s") (auto simp: generateMapTraditional_def)
  with g obtain shuffled s2 where b: "randomSort letters s1 = Inr (shuffled, s2)"
    by (cases "randomSort letters s1") (auto simp: generateMapTraditional_def)
  with g a have c: "placeAll (zip (playPositions (rows s2) (cols s2)) shuffled) s2 = Inr s'"
    by (simp add: generateMapTraditional_def)
  from sameSession_trans[OF sameSession_trans[OF sameSession_generateLetterPairs[OF a]
        sameSession_randomSort[OF b]] sameSession_placeAll[OF c]]
  show ?thesis .
qed

lemma sameSession_generateSolvableTemplate:
  "generateSolvableTemplate s = Inr s' \<Longrightarrow> sameSession s s'"
proof -
  assume g: "generateSolvableTemplate s = Inr s'"
  then obtain letters s1 where a: "generateLetterPairs (initializeEmptyMap s) = Inr (letters, s1)"
    by (cases "generateLetterPairs (initializeEmptyMap s)") (auto simp: generateSolvableTemplate_def)
  with g have b: "placeTemplate (zip (templateSlots (rows s1) (cols s1)) (groupIntoLetterPairs letters)) s1 = Inr s'"
    by (simp add: generateSolvableTemplate_def)
  from sameSession_trans[OF sameSession_trans[OF sameSession_initializeEmptyMap
        sameSession_generateLetterPairs[OF a]] sameSession_placeTemplate[OF b]]
  show ?thesis .
qed

lemma sameSession_generateRandomMapLoop:
  "generateRandomMapLoop s n = Inr (s', m) \<Longrightarrow> sameSession s s'"
proof (induction s n rule: generateRandomMapLoop.induct)
  case (1 s attempts)
  from "1.prems" obtain s1 where
    g: "(if attempts < 15 then generateMapWithEdgePriority (initializeEmptyMap s)
         else generateMapTraditional (initializeEmptyMap s)) = Inr s1"
    by (subst (asm) generateRandomMapLoop.simps) (auto split: sum.splits)
  have a: "sameSession s s1"
    using g sameSession_generateMapWithEdgePriority[of "initializeEmptyMap s" s1]
      sameSession_generateMapTraditional[of "initializeEmptyMap s" s1]
    by (auto split: if_splits intro: sameSession_trans[OF sameSession_initializeEmptyMap])
  obtain ok s2 where e: "isSolvableE s1 = (ok, s2)" by (cases "isSolvableE s1") auto
  have b: "sameSession s1 s2" using sameSession_isSolvableE[of s1] e by simp
  show ?case
  proof (cases "\<not> ok \<and> attempts + 1 < 30")
    case True
    with "1.prems" g e have "generateRandomMapLoop s2 (attempts + 1) = Inr (s', m)"
      by (subst (asm) generateRandomMapLoop.simps) (auto split: sum.splits)
    from "1.IH"[OF g e[symmetric] True this] a b show ?thesis by (blast intro: sameSession_trans)
  next
    case False
    with "1.prems" g e have "s' = s2"
      by (subst (asm) generateRandomMapLoop.simps) (auto split: sum.splits)
    with a b show ?thesis by (blast intro: sameSession_trans)
  qed
qed

lemma sameSession_generateRandomMap:
  "generateRandomMap s = Inr s' \<Longrightarrow> sameSession s s'"
proof -
  assume g: "generateRandomMap s = Inr s'"
  then obtain s1 n where l: "generateRandomMapLoop s 0 = Inr (s1, n)"
    by (cases "generateRandomMapLoop s 0") (auto simp: generateRandomMap_def)
  have a: "sameSession s s1" using l by (rule sameSession_generateRandomMapLoop)
  show ?thesis
  proof (cases "n \<ge> 30")
    case True
    with g l have "generateSolvableTemplate (notify (ConsoleWarn TemplateUsed) s1) = Inr s'"
      by (simp add: generateRandomMap_def)
    from sameSession_trans[OF a sameSession_trans[OF sameSession_notify
          sameSession_generateSolvableTemplate[OF this]]]
    show ?thesis .
  next
    case False
    with g l have "s' = s1" by (simp add: generateRandomMap_def)
    with a show ?thesis by simp
  qed
qed

lemma sameSession_createMapLoop:
  "createMapLoop s n = Inr (s', m) \<Longrightarrow> sameSession s s'"
proof (induction s n rule: createMapLoop.induct)
  case (1 s attempts)
  from "1.prems" obtain s1 where g: "generateRandomMap s = Inr s1"
    by (subst (asm) createMapLoop.simps) (auto split: sum.splits)
  have a: "sameSession s s1" using g by (rule sameSession_generateRandomMap)
  obtain ok s2 where e: "isSolvableE s1 = (ok, s2)" by (cases "isSolvableE s1") auto
  have b: "sameSession s1 s2" using sameSession_isSolvableE[of s1] e by simp
  show ?case
  proof (cases "\<not> ok \<and> attempts + 1 < 100")
    case True
    with "1.prems" g e have "createMapLoop s2 (attempts + 1) = Inr (s', m)"
      by (subst (asm) createMapLoop.simps) (auto split: sum.splits)
    from "1.IH"[OF g e[symmetric] True this] a b show ?thesis by (blast intro: sameSession_trans)
  next
    case False
    with "1.prems" g e have "s' = s2"
      by (subst (asm) createMapLoop.simps) (auto split: sum.splits)
    with a b show ?thesis by (blast intro: sameSession_trans)
  qed
qed

lemma sameSession_createMap:
  "createMap s = Inr s' \<Longrightarrow> sameSession s s'"
proof -
  assume c: "createMap s = Inr s'"
  then obtain s1 n where l: "createMapLoop s 0 = Inr (s1, n)"
    by (cases "createMapLoop s 0") (auto simp: createMap_def)
  have a: "sameSession s s1" using l by (rule sameSession_createMapLoop)
  show ?thesis
  proof (cases "n \<ge> 100")
    case True
    with c l have "s' = notify (ConsoleWarn MapUnsolvable) s1" by (simp add: createMap_def)
    with sameSession_trans[OF a sameSession_notify] show ?thesis by simp
  next
    case False
    with c l have "s' = s1" by (simp add: createMap_def)
    with a show ?thesis by simp
  qed
qed

lemma sameSession_smartDisorderEdgeFirst:
  "smartDisorderEdgeFirst s = Inr s' \<Longrightarrow> sameSession s s'"
proof -
  assume g: "smartDisorderEdgeFirst s = Inr s'"
  then obtain shuffled s1 where a: "randomSort (collectCharacters s) s = Inr (shuffled, s1)"
    by (cases "randomSort (collectCharacters s) s") (auto simp: smartDisorderEdgeFirst_def Let_def)
  with g obtain g' where "s' = s1\<lparr>pictures := g'\<rparr>"
    by (auto simp: smartDisorderEdgeFirst_def Let_def)
  with sameSession_trans[OF sameSession_randomSort[OF a] sameSession_pictures]
  show ?thesis by simp
qed

lemma sameSession_smartDisorderSpread [simp]: "sameSession s (smartDisorderSpread s)"
  by (simp add: smartDisorderSpread_def Let_def)

lemma sameSession_randomDisorder:
  "randomDisorder s = Inr s' \<Longrightarrow> sameSession s s'"
proof -
  assume g: "randomDisorder s = Inr s'"
  then obtain shuffled s1 where a: "randomSort (collectCharacters s) s = Inr (shuffled, s1)"
    by (cases "randomSort (collectCharacters s) s") (auto simp: randomDisorder_def Let_def)
  with g obtain g' where "s' = s1\<lparr>pictures := g'\<rparr>"
    by (auto simp: randomDisorder_def Let_def)
  with sameSession_trans[OF sameSession_randomSort[OF a] sameSession_pictures]
  show ?thesis by simp
qed

lemma sameSession_generateLinearLayout [simp]: "sameSession s (generateLinearLayout s)"
  unfolding generateLinearLayout_def Let_def
  by (rule sameSession_trans[OF sameSession_notify sameSession_pictures])

lemma sameSession_forceGenerateSolvableLayout:
  "forceGenerateSolvableLayout s = Inr s' \<Longrightarrow> sameSession s s'"
proof -
  assume f: "forceGenerateSolvableLayout s = Inr s'"
  let ?s0 = "notify (ToastError ForcedLayout) (notify (ConsoleError ForcedLayout) s)"
  from f obtain s1 where g: "generateRandomMap ?s0 = Inr s1"
    by (auto simp: forceGenerateSolvableLayout_def split: sum.splits)
  obtain ok s2 where e: "isSolvableE s1 = (ok, s2)" by (cases "isSolvableE s1") auto
  have a: "sameSession s ?s0" by (blast intro: sameSession_trans sameSession_notify)
  have b: "sameSession ?s0 s1" using g by (rule sameSession_generateRandomMap)
  have c: "sameSession s1 s2" using sameSession_isSolvableE[of s1] e by simp
  have d: "sameSession s2 s'"
    using f g e by (auto simp: forceGenerateSolvableLayout_def split: if_splits)
  from a b c d show ?thesis by (blast intro: sameSession_trans)
qed

lemma sameSession_disorderLoop:
  "disorderLoop s n = Inr (s', m) \<Longrightarrow> sameSession s s'"
proof (induction s n rule: disorderLoop.induct)
  case (1 s attempts)
  from "1.prems" obtain s1 where
    g: "(if attempts < 50 then smartDisorderEdgeFirst s
         else if attempts < 100 then Inr (smartDisorderSpread s)
         else randomDisorder s) = Inr s1"
    by (subst (asm) disorderLoop.simps) (auto split: sum.splits)
  have a: "sameSession s s1"
    using g sameSession_smartDisorderEdgeFirst[of s s1] sameSession_randomDisorder[of s s1]
    by (auto split: if_splits)
  obtain ok s2 where e: "isSolvableE s1 = (ok, s2)" by (cases "isSolvableE s1") auto
  have b: "sameSession s1 s2" using sameSession_isSolvableE[of s1] e by simp
  show ?case
  proof (cases "\<not> ok \<and> attempts + 1 < 200")
    case True
    with "1.prems" g e have "disorderLoop s2 (attempts + 1) = Inr (s', m)"
      by (subst (asm) disorderLoop.simps) (auto split: sum.splits)
    from "1.IH"[OF g e[symmetric] True this] a b show ?thesis by (blast intro: sameSession_trans)
  next
    case False
    with "1.prems" g e have "s' = s2"
      by (subst (asm) disorderLoop.simps) (auto split: sum.splits)
    with a b show ?thesis by (blast intro: sameSession_trans)
  qed
qed

lemma sameSession_renderMap [simp]: "sameSession s (renderMap s)"
  by (simp add: renderMap_def)

lemma sameSession_disorder:
  "disorder s = Inr s' \<Longrightarrow> sameSession s s'"
proof -
  assume d: "disorder s = Inr s'"
  then have gr: "gridReadable s" by (auto simp: disorder_def split: if_splits)
  with d obtain s1 n where l: "disorderLoop s 0 = Inr (s1, n)"
    by (cases "disorderLoop s 0") (auto simp: disorder_def)
  from d l gr obtain s2 where
    f: "(if n \<ge> 200 then forceGenerateSolvableLayout (notify (ConsoleWarn ReshuffleUnsolvable) s1)
         else Inr s1) = Inr s2" and r: "s' = renderMap s2"
    by (cases "if n \<ge> 200 then forceGenerateSolvableLayout (notify (ConsoleWarn ReshuffleUnsolvable) s1)
         else Inr s1") (auto simp: disorder_def)
  have a: "sameSession s s1" using l by (rule sameSession_disorderLoop)
  have b: "sameSession s1 s2"
  proof (cases "n \<ge> 200")
    case True
    with f have "forceGenerateSolvableLayout (notify (ConsoleWarn ReshuffleUnsolvable) s1) = Inr s2"
      by simp
    from sameSession_trans[OF sameSession_notify sameSession_forceGenerateSolvableLayout[OF this]]
    show ?thesis .
  next
    case False
    with f show ?thesis by simp
  qed
  have c: "sameSession s2 s'" unfolding r by (rule sameSession_renderMap)
  from sameSession_trans[OF sameSession_trans[OF a b] c] show ?thesis .
qed

section \<open>What the steps of the session leave alone\<close>

lemma disorder_unfold:
  "disorder s = Inr s' \<Longrightarrow>
     gridReadable s \<and> (\<exists>s1 n s2. disorderLoop s 0 = Inr (s1, n)
        \<and> (if n \<ge> 200 then forceGenerateSolvableLayout (notify (ConsoleWarn ReshuffleUnsolvable) s1)
            else Inr s1) = Inr s2 \<and> s' = renderMap s2)"
proof -
  assume d: "disorder s = Inr s'"
  then have gr: "gridReadable s" by (auto simp: disorder_def split: if_splits)
  with d obtain s1 n where l: "disorderLoop s 0 = Inr (s1, n)"
    by (cases "disorderLoop s 0") (auto simp: disorder_def)
  from d l gr obtain s2 where
    f: "(if n \<ge> 200 then forceGenerateSolvableLayout (notify (ConsoleWarn ReshuffleUnsolvable) s1)
         else Inr s1) = Inr s2" and r: "s' = renderMap s2"
    by (cases "if n \<ge> 200 then forceGenerateSolvableLayout (notify (ConsoleWarn ReshuffleUnsolvable) s1)
         else Inr s1") (auto simp: disorder_def)
  with gr l show ?thesis by blast
qed

lemma autoDisorder_cases:
  "autoDisorder s = Inr (b, s') \<Longrightarrow>
     (\<not> b \<and> s' = s)
     \<or> (b \<and> disorder ((notify (ToastError DeadlockAuto) (notify (ConsoleError DeadlockAuto) s))
                        \<lparr>leftDisorderTime := leftDisorderTime s - 1\<rparr>) = Inr s')"
proof -
  assume a: "autoDisorder s = Inr (b, s')"
  show ?thesis
  proof (cases "\<not> autoDisorderEnabled s \<or> leftDisorderTime s \<le> 0")
    case True
    with a show ?thesis by (simp add: autoDisorder_def)
  next
    case False
    let ?s1 = "(notify (ToastError DeadlockAuto) (notify (ConsoleError DeadlockAuto) s))
                        \<lparr>leftDisorderTime := leftDisorderTime s - 1\<rparr>"
    from a False have "b \<and> disorder ?s1 = Inr s'"
      by (cases "disorder ?s1") (auto simp: autoDisorder_def Let_def notify_def)
    then show ?thesis by simp
  qed
qed

lemma keeps_refl [simp]: "keeps s s"
  by (simp add: keeps_def)

lemma keeps_trans: "keeps s s1 \<Longrightarrow> keeps s1 s2 \<Longrightarrow> keeps s s2"
  unfolding keeps_def
  by (metis append_eq_conv_conj append_take_drop_id append.assoc order_trans)

lemma sameSession_keeps: "sameSession s s' \<Longrightarrow> keeps s s'"
  by (simp add: sameSession_def keeps_def)

lemma keeps_emit [simp]: "keeps s (emit h e s)"
  by (simp add: keeps_def)

lemma keeps_notify [simp]: "keeps s (notify e s)"
  by (simp add: keeps_def)

lemma keeps_gameOver [simp]: "keeps s (gameOver t s)"
  by (simp add: keeps_def)

lemma autoDisorder_keeps:
  assumes "autoDisorder s = Inr (b, s')"
  shows "keeps s s' \<and> steps s' = steps s \<and> isAnimating s' = isAnimating s
         \<and> preClickInfo s' = preClickInfo s \<and> selectedCell s' = selectedCell s"
proof -
  let ?s1 = "(notify (ToastError DeadlockAuto) (notify (ConsoleError DeadlockAuto) s))
                        \<lparr>leftDisorderTime := leftDisorderTime s - 1\<rparr>"
  from autoDisorder_cases[OF assms] show ?thesis
  proof
    assume "\<not> b \<and> s' = s" then show ?thesis by simp
  next
    assume "b \<and> disorder ?s1 = Inr s'"
    then have ss: "sameSession ?s1 s'" by (simp add: sameSession_disorder)
    have "take (length (events s)) (events ?s1) = events s" by simp
    with ss have "take (length (events s)) (events s') = events s"
      unfolding sameSession_def
      by (metis append_eq_conv_conj append_take_drop_id append.assoc)
    with ss show ?thesis by (simp add: sameSession_def keeps_def)
  qed
qed


lemma showHint_cases: "showHint s = s \<or> (\<exists>e. showHint s = emit OnHint e s)"
  by (cases "getAvailableMatches s") (auto simp: showHint_def split: prod.splits)

lemma keepsPlay_refl [simp]: "keepsPlay s s"
  by (simp add: keepsPlay_def)

lemma keepsPlay_trans: "keepsPlay s s1 \<Longrightarrow> keepsPlay s1 s2 \<Longrightarrow> keepsPlay s s2"
  unfolding keepsPlay_def using keeps_trans[of s s1 s2] by simp

lemma keepsPlay_emit [simp]: "keepsPlay s (emit h e s)"
  by (simp add: keepsPlay_def)

lemma keepsPlay_notify [simp]: "keepsPlay s (notify e s)"
  by (simp add: keepsPlay_def)

lemma keepsPlay_gameOver [simp]: "keepsPlay s (gameOver t s)"
  by (simp add: keepsPlay_def)

lemma keepsPlay_showHint [simp]: "keepsPlay s (showHint s)"
  using showHint_cases[of s] by auto

lemma pictures_showHint [simp]: "pictures (showHint s) = pictures s"
  using showHint_cases[of s] by auto

lemma keepsPlay_hintAtStepFive [simp]: "keepsPlay s (hintAtStepFive s)"
  by (simp add: hintAtStepFive_def)

lemma pictures_hintAtStepFive [simp]: "pictures (hintAtStepFive s) = pictures s"
  by (simp add: hintAtStepFive_def)

lemma keepsPlay_checkStepLimit [simp]: "keepsPlay s (checkStepLimit s)"
  by (simp add: checkStepLimit_def)

lemma pictures_checkStepLimit [simp]: "pictures (checkStepLimit s) = pictures s"
  by (simp add: checkStepLimit_def)

lemma resolveDeadlock_cases:
  assumes "resolveDeadlock s = Inr s'"
  shows "(\<not> checkCurrentDeadlock s \<and> s' = s)
     \<or> (checkCurrentDeadlock s \<and> (\<exists>b s1. autoDisorder s = Inr (b, s1)
            \<and> s' = (if \<not> b then notify (ConsoleWarn DeadlockNeedsManual) s1 else s1)))"
proof (cases "checkCurrentDeadlock s")
  case False
  with assms show ?thesis by (simp add: resolveDeadlock_def)
next
  case True
  with assms obtain b s1 where a: "autoDisorder s = Inr (b, s1)"
    by (cases "autoDisorder s") (auto simp: resolveDeadlock_def)
  with assms True have "s' = (if \<not> b then notify (ConsoleWarn DeadlockNeedsManual) s1 else s1)"
    by (cases b) (simp_all add: resolveDeadlock_def)
  with True a show ?thesis by blast
qed

lemma resolveDeadlock_keepsPlay:
  assumes "resolveDeadlock s = Inr s'"
  shows "keepsPlay s s'"
proof -
  from resolveDeadlock_cases[OF assms] show ?thesis
  proof
    assume "\<not> checkCurrentDeadlock s \<and> s' = s" then show ?thesis by simp
  next
    assume "checkCurrentDeadlock s \<and> (\<exists>b s1. autoDisorder s = Inr (b, s1)
            \<and> s' = (if \<not> b then notify (ConsoleWarn DeadlockNeedsManual) s1 else s1))"
    then obtain b s1 where a: "autoDisorder s = Inr (b, s1)"
      and s': "s' = (if \<not> b then notify (ConsoleWarn DeadlockNeedsManual) s1 else s1)" by blast
    from autoDisorder_keeps[OF a] have "keepsPlay s s1" by (simp add: keepsPlay_def)
    moreover have "keepsPlay s1 s'" unfolding s' by simp
    ultimately show ?thesis by (rule keepsPlay_trans)
  qed
qed

lemma updateSteps_unfold:
  assumes "updateSteps s = Inr s'"
  shows "gridReadable s \<and> (\<exists>s2. resolveDeadlock (emit OnStepUpdate (StepUpdate (steps s + 1)) (s\<lparr>steps := steps s + 1\<rparr>)) = Inr s2
            \<and> s' = checkStepLimit (hintAtStepFive s2))"
proof -
  let ?s1 = "emit OnStepUpdate (StepUpdate (steps s + 1)) (s\<lparr>steps := steps s + 1\<rparr>)"
  have gr1: "gridReadable ?s1"
    using assms unfolding updateSteps_def Let_def by (cases "gridReadable ?s1") auto
  then have gr: "gridReadable s" by (simp add: gridReadable_def)
  from assms gr1 obtain s2 where "resolveDeadlock ?s1 = Inr s2" "s' = checkStepLimit (hintAtStepFive s2)"
    unfolding updateSteps_def Let_def by (cases "resolveDeadlock ?s1") auto
  with gr show ?thesis by blast
qed

lemma updateSteps_keeps:
  assumes "updateSteps s = Inr s'"
  shows "keeps s s' \<and> steps s' = steps s + 1 \<and> isAnimating s' = isAnimating s
         \<and> preClickInfo s' = preClickInfo s \<and> selectedCell s' = selectedCell s"
proof -
  let ?s1 = "emit OnStepUpdate (StepUpdate (steps s + 1)) (s\<lparr>steps := steps s + 1\<rparr>)"
  from updateSteps_unfold[OF assms] obtain s2 where
    r: "resolveDeadlock ?s1 = Inr s2" and f: "s' = checkStepLimit (hintAtStepFive s2)" by blast
  have k1: "keeps s ?s1 \<and> steps ?s1 = steps s + 1 \<and> isAnimating ?s1 = isAnimating s
         \<and> preClickInfo ?s1 = preClickInfo s \<and> selectedCell ?s1 = selectedCell s"
    by (simp add: keeps_def)
  have k2: "keepsPlay ?s1 s2" using r by (rule resolveDeadlock_keepsPlay)
  have k3: "keepsPlay s2 s'" unfolding f
    by (rule keepsPlay_trans[OF keepsPlay_hintAtStepFive keepsPlay_checkStepLimit])
  from keepsPlay_trans[OF k2 k3] have "keepsPlay ?s1 s'" .
  with k1 show ?thesis
    unfolding keepsPlay_def using keeps_trans[of s ?s1 s'] by simp
qed

lemma updateScore_fields [simp]:
  "keepsPlay s (updateScore s)" "pictures (updateScore s) = pictures s"
  by (simp_all add: updateScore_def)

lemma renderMap_fields [simp]:
  "keepsPlay s (renderMap s)" "pictures (renderMap s) = pictures s"
  by (simp_all add: renderMap_def)

lemma addShakeEffect_fields [simp]:
  "keepsPlay s (addShakeEffect cells s)" "pictures (addShakeEffect cells s) = pictures s"
  by (simp_all add: addShakeEffect_def)

lemma clearHint_fields [simp]:
  "keepsPlay s (clearHint s)" "pictures (clearHint s) = pictures s"
  by (simp_all add: clearHint_def)

lemma updateStatus_unfold:
  assumes "updateStatus pr pc cr cc s = Inr s'"
  shows "inGrid (pictures s) pr pc \<and> inGrid (pictures s) cr cc
       \<and> keepsPlay s s' \<and> pictures s' = markEmpty (markEmpty (pictures s) pr pc) cr cc"
proof -
  from assms have g: "inGrid (pictures s) pr pc" "inGrid (pictures s) cr cc"
    unfolding updateStatus_def by (auto split: if_splits)
  let ?s1 = "if toUpperCase (pic (cellAt (pictures s) pr pc)) = targetLetter s
                \<or> toUpperCase (pic (cellAt (pictures s) cr cc)) = targetLetter s
             then emit OnTargetLetterEliminated TargetLetterEliminated s else s"
  let ?s2 = "?s1\<lparr>pictures := markEmpty (markEmpty (pictures ?s1) pr pc) cr cc\<rparr>"
  from assms g have s': "s' = (if remain ?s2 \<le> 0 then gameOver Normal ?s2 else ?s2)"
    unfolding updateStatus_def Let_def by (auto split: if_splits)
  have a: "keepsPlay s ?s1" "pictures ?s1 = pictures s" by simp_all
  have b: "keepsPlay ?s1 ?s2" by (simp add: keepsPlay_def keeps_def)
  have c: "keepsPlay ?s2 s'" "pictures s' = pictures ?s2" unfolding s' by simp_all
  from keepsPlay_trans[OF keepsPlay_trans[OF a(1) b] c(1)] c(2) a(2) g show ?thesis by simp
qed

lemma invoke_MatchResolved_unfold:
  assumes "invoke (MatchResolved pr pc cr cc pi ci) s = Inr s'"
  shows "\<exists>s1 s2. updateStatus pr pc cr cc s = Inr s1
           \<and> updateSteps (updateScore (renderMap s1)) = Inr s2 \<and> s' = s2\<lparr>isAnimating := False\<rparr>"
proof -
  from assms obtain s1 where a: "updateStatus pr pc cr cc s = Inr s1"
    by (cases "updateStatus pr pc cr cc s") (auto simp: invoke_def)
  with assms obtain s2 where b: "updateSteps (updateScore (renderMap s1)) = Inr s2"
    by (cases "updateSteps (updateScore (renderMap s1))") (auto simp: invoke_def)
  with assms a have "s' = s2\<lparr>isAnimating := False\<rparr>" by (simp add: invoke_def)
  with a b show ?thesis by blast
qed

lemma invoke_MatchResolved_keeps:
  assumes "invoke (MatchResolved pr pc cr cc pi ci) s = Inr s'"
  shows "keeps s s' \<and> steps s' = steps s + 1 \<and> \<not> isAnimating s'
         \<and> preClickInfo s' = preClickInfo s \<and> selectedCell s' = selectedCell s"
proof -
  from invoke_MatchResolved_unfold[OF assms] obtain s1 s2 where
    a: "updateStatus pr pc cr cc s = Inr s1"
    and b: "updateSteps (updateScore (renderMap s1)) = Inr s2"
    and c: "s' = s2\<lparr>isAnimating := False\<rparr>" by blast
  from updateStatus_unfold[OF a] have k1: "keepsPlay s s1" by simp
  have k2: "keepsPlay s1 (updateScore (renderMap s1))"
    by (rule keepsPlay_trans[OF renderMap_fields(1) updateScore_fields(1)])
  from keepsPlay_trans[OF k1 k2] have k3: "keepsPlay s (updateScore (renderMap s1))" .
  from updateSteps_keeps[OF b] have k4: "keeps (updateScore (renderMap s1)) s2"
    "steps s2 = steps (updateScore (renderMap s1)) + 1"
    "preClickInfo s2 = preClickInfo (updateScore (renderMap s1))"
    "selectedCell s2 = selectedCell (updateScore (renderMap s1))" by simp_all
  have k5: "keeps s2 s'" unfolding c by (simp add: keeps_def)
  from k3 have k3': "keeps s (updateScore (renderMap s1))" by (simp add: keepsPlay_def)
  from keeps_trans[OF keeps_trans[OF k3' k4(1)] k5] have "keeps s s'" .
  with k3 k4 c show ?thesis by (simp add: keepsPlay_def)
qed

lemma invoke_RejectResolved_keeps:
  assumes "invoke RejectResolved s = Inr s'"
  shows "keeps s s' \<and> steps s' = steps s + 1 \<and> \<not> isAnimating s'
         \<and> preClickInfo s' = None \<and> selectedCell s' = None \<and> pictures s' = pictures s
            \<or> keeps s s' \<and> steps s' = steps s + 1 \<and> \<not> isAnimating s'
         \<and> preClickInfo s' = None \<and> selectedCell s' = None"
proof -
  let ?s0 = "(setSelectedCell None (s\<lparr>preClickInfo := None\<rparr>))\<lparr>isAnimating := False\<rparr>"
  from assms obtain s1 where a: "updateSteps ?s0 = Inr s1"
    by (cases "updateSteps ?s0") (auto simp: invoke_def)
  with assms have s': "s' = addShakeEffect [] s1" by (simp add: invoke_def)
  have k0: "keeps s ?s0" by (simp add: keeps_def)
  from updateSteps_keeps[OF a] have k1: "keeps ?s0 s1" "steps s1 = steps s + 1"
    "\<not> isAnimating s1" "preClickInfo s1 = None" "selectedCell s1 = None" by simp_all
  have k2: "keepsPlay s1 s'" unfolding s' by simp
  then have "keeps s1 s'" by (simp add: keepsPlay_def)
  from keeps_trans[OF keeps_trans[OF k0 k1(1)] this] have "keeps s s'" .
  with k1 k2 show ?thesis by (simp add: keepsPlay_def)
qed

lemma invoke_steps:
  assumes "invoke k s = Inr s'"
  shows "steps s' = (if k = NoOp then steps s else steps s + 1)"
proof (cases k)
  case (MatchResolved pr pc cr cc pi ci)
  with invoke_MatchResolved_keeps[of pr pc cr cc pi ci s s'] assms show ?thesis by simp
next
  case RejectResolved
  with invoke_RejectResolved_keeps[of s s'] assms show ?thesis by auto
next
  case NoOp
  with assms show ?thesis by (simp add: invoke_def)
qed

lemma drawLine_cases:
  assumes "drawLine pts k1 k2 s = Inr s'"
  shows "(hooks s OnDrawLine \<and> s' = notify (DrawLine pts k1 k2) (setSelectedCell None s))
       \<or> (\<not> hooks s OnDrawLine \<and> invoke k1 (setSelectedCell None s) = Inr s')"
  using assms unfolding drawLine_def Let_def by (cases "hooks s OnDrawLine") simp_all

lemma matchConnected_unfold:
  assumes "matchConnected pre cur pts s = Inr s'"
  shows "\<exists>s3. drawLine pts (MatchResolved (row pre) (col pre) (row cur) (col cur) (clickIndex pre) (clickIndex cur))
                NoOp (emit OnAnimationStart (AnimationStart [(row pre, col pre), (row cur, col cur)])
                        (s\<lparr>score := score s + 100, remain := remain s - 2, isAnimating := True\<rparr>)) = Inr s3
            \<and> s' = setSelectedCell None (s3\<lparr>preClickInfo := None\<rparr>)"
proof -
  let ?s2 = "emit OnAnimationStart (AnimationStart [(row pre, col pre), (row cur, col cur)])
                        (s\<lparr>score := score s + 100, remain := remain s - 2, isAnimating := True\<rparr>)"
  let ?k = "MatchResolved (row pre) (col pre) (row cur) (col cur) (clickIndex pre) (clickIndex cur)"
  from assms obtain s3 where "drawLine pts ?k NoOp ?s2 = Inr s3"
    unfolding matchConnected_def Let_def by (cases "drawLine pts ?k NoOp ?s2") auto
  moreover with assms have "s' = setSelectedCell None (s3\<lparr>preClickInfo := None\<rparr>)"
    unfolding matchConnected_def Let_def by simp
  ultimately show ?thesis by blast
qed

lemma checkMatch_cases:
  assumes "checkMatch cur s = Inr s'"
  shows "inGrid (pictures s) (row cur) (col cur) \<and>
     ((isEmpty (cellAt (pictures s) (row cur) (col cur)) \<and> s' = s)
      \<or> (\<not> isEmpty (cellAt (pictures s) (row cur) (col cur))
          \<and> s' = (setSelectedCell None s)\<lparr>preClickInfo := None\<rparr>)
      \<or> (\<not> isEmpty (cellAt (pictures s) (row cur) (col cur))
          \<and> s' = setSelectedCell (Some cur) (s\<lparr>preClickInfo := Some cur\<rparr>))
      \<or> (\<exists>pre pts. preClickInfo s = Some pre \<and> matchConnected pre cur pts s = Inr s')
      \<or> (\<exists>pre. preClickInfo s = Some pre \<and> matchRejected pre cur s = Inr s'))"
proof -
  from assms have g: "inGrid (pictures s) (row cur) (col cur)"
    unfolding checkMatch_def by (auto split: if_splits)
  show ?thesis
  proof (cases "isEmpty (cellAt (pictures s) (row cur) (col cur))")
    case True
    with assms g show ?thesis by (simp add: checkMatch_def)
  next
    case ne: False
    show ?thesis
    proof (cases "case selectedCell s of None \<Rightarrow> False
               | Some sel \<Rightarrow> row sel = row cur \<and> col sel = col cur")
      case True
      with assms g ne show ?thesis by (simp add: checkMatch_def)
    next
      case ns: False
      show ?thesis
      proof (cases "preClickInfo s")
        case None
        with assms g ne ns show ?thesis by (simp add: checkMatch_def)
      next
        case (Some pre)
        show ?thesis
        proof (cases "inGrid (pictures s) (row pre) (col pre)")
          case False
          with assms g ne ns Some show ?thesis by (simp add: checkMatch_def)
        next
          case gp: True
          show ?thesis
          proof (cases "isMatch (pic (cellAt (pictures s) (row pre) (col pre)))
                             (pic (cellAt (pictures s) (row cur) (col cur)))")
            case False
            with assms g ne ns Some gp show ?thesis by (simp add: checkMatch_def)
          next
            case m: True
            obtain b pts where cc: "canCleanup (cols s) (rows s) (pictures s) (col pre) (row pre) (col cur) (row cur) = (b, pts)"
              by (cases "canCleanup (cols s) (rows s) (pictures s) (col pre) (row pre) (col cur) (row cur)") auto
            show ?thesis
            proof (cases b)
              case True
              with assms g ne ns Some gp m cc have "matchConnected pre cur pts s = Inr s'"
                by (simp add: checkMatch_def)
              with Some g show ?thesis by blast
            next
              case False
              with assms g ne ns Some gp m cc have "matchRejected pre cur s = Inr s'"
                by (simp add: checkMatch_def)
              with Some g show ?thesis by blast
            qed
          qed
        qed
      qed
    qed
  qed
qed


section \<open>Writing a cell\<close>

lemma wellFormed_setCell [simp]:
  "wellFormed nrows ncols (setCell g y x v) = wellFormed nrows ncols g"
proof -
  have "list_all (\<lambda>row. length row = nat ncols) (g[nat y := (g ! nat y)[nat x := v]])
        = list_all (\<lambda>row. length row = nat ncols) g"
  proof (cases "nat y < length g")
    case True
    then show ?thesis
      by (auto simp: list_all_length nth_list_update)
  next
    case False
    then show ?thesis by (simp add: list_update_beyond)
  qed
  then show ?thesis by (simp add: wellFormed_def setCell_def)
qed

lemma cellAt_setCell_other:
  assumes "0 \<le> i" "0 \<le> j" "0 \<le> y" "0 \<le> x" "(i, j) \<noteq> (y, x)"
  shows "cellAt (setCell g y x v) i j = cellAt g i j"
proof (cases "nat i = nat y")
  case False
  then show ?thesis by (simp add: cellAt_def setCell_def)
next
  case True
  with assms have ne: "nat j \<noteq> nat x" by auto
  show ?thesis
  proof (cases "nat y < length g")
    case True
    with \<open>nat i = nat y\<close> ne show ?thesis by (simp add: cellAt_def setCell_def)
  next
    case False
    then show ?thesis by (simp add: cellAt_def setCell_def list_update_beyond)
  qed
qed

lemma inGrid_nat: "inGrid g y x \<Longrightarrow> nat y < length g \<and> nat x < length (g ! nat y)"
  by (auto simp: inGrid_def)

lemma cellAt_setCell_same:
  assumes "inGrid g y x"
  shows "cellAt (setCell g y x v) y x = v"
  using inGrid_nat[OF assms] by (simp add: cellAt_def setCell_def)

lemma inGrid_setCell [simp]: "inGrid (setCell g y x v) i j = inGrid g i j"
  by (cases "nat i = nat y"; cases "nat y < length g")
     (auto simp: inGrid_def setCell_def list_update_beyond)

lemma allPositions_iff:
  "(i, j) \<in> set (allPositions nrows ncols) \<longleftrightarrow> 0 \<le> i \<and> i < nrows \<and> 0 \<le> j \<and> j < ncols"
  by (force simp: allPositions_def)

lemma playPositions_iff:
  "(i, j) \<in> set (playPositions nrows ncols) \<longleftrightarrow> inPlayArea nrows ncols i j"
  by (force simp: playPositions_def inPlayArea_def)

lemma borderUntouched_iff:
  "borderUntouched nrows ncols g \<longleftrightarrow>
     (\<forall>i j. 0 \<le> i \<and> i < nrows \<and> 0 \<le> j \<and> j < ncols \<and> \<not> inPlayArea nrows ncols i j
            \<longrightarrow> cellAt g i j = emptyCell)"
  unfolding borderUntouched_def list_all_iff using allPositions_iff[of _ _ nrows ncols] by fastforce

lemma borderUntouched_setCell:
  assumes "inPlayArea nrows ncols y x" "borderUntouched nrows ncols g"
  shows "borderUntouched nrows ncols (setCell g y x v)"
  unfolding borderUntouched_iff
proof (intro allI impI)
  fix i j assume a: "0 \<le> i \<and> i < nrows \<and> 0 \<le> j \<and> j < ncols \<and> \<not> inPlayArea nrows ncols i j"
  with assms(1) have "(i, j) \<noteq> (y, x)" by auto
  moreover from assms(1) have "0 \<le> y" "0 \<le> x" by (auto simp: inPlayArea_def)
  ultimately have "cellAt (setCell g y x v) i j = cellAt g i j"
    using a by (intro cellAt_setCell_other) auto
  with assms(2) a show "cellAt (setCell g y x v) i j = emptyCell"
    by (simp add: borderUntouched_iff)
qed

lemma occupancy_setCell:
  assumes "isEmpty v = emptyAt g y x"
  shows "occupancy (setCell g y x v) = occupancy g"
proof (cases "nat y < length g")
  case False
  then show ?thesis by (simp add: occupancy_def setCell_def list_update_beyond)
next
  case y: True
  have row: "map isEmpty ((g ! nat y)[nat x := v]) = map isEmpty (g ! nat y)"
  proof (cases "nat x < length (g ! nat y)")
    case False
    then show ?thesis by (simp add: list_update_beyond)
  next
    case True
    have "map isEmpty ((g ! nat y)[nat x := v]) = (map isEmpty (g ! nat y))[nat x := isEmpty v]"
      by (simp add: map_update)
    also have "\<dots> = map isEmpty (g ! nat y)"
      using True assms by (simp add: emptyAt_def cellAt_def list_update_same_conv)
    finally show ?thesis .
  qed
  have "map (map isEmpty) (g[nat y := (g ! nat y)[nat x := v]])
        = (map (map isEmpty) g)[nat y := map isEmpty ((g ! nat y)[nat x := v])]"
    by (simp add: map_update)
  also have "\<dots> = map (map isEmpty) g"
    using y row by (simp add: list_update_same_conv)
  finally show ?thesis by (simp add: occupancy_def setCell_def)
qed


section \<open>The loops of the generator and of the reshuffle\<close>

lemma isSolvableE_same: "isSolvableE s = (fst (isSolvable (rows s) (cols s) (pictures s)), s)"
proof -
  obtain b g where r: "isSolvable (rows s) (cols s) (pictures s) = (b, g)"
    by (cases "isSolvable (rows s) (cols s) (pictures s)") auto
  with isSolvable_same_grid[of "rows s" "cols s" "pictures s"] have "g = pictures s" by simp
  with r show ?thesis by (simp add: isSolvableE_def)
qed

text \<open>The engine's own verdict on its grid.\<close>

lemma generateRandomMapLoop_last:
  assumes "generateRandomMapLoop s n = Inr (s', m)"
  shows "\<exists>s0. (generateMapWithEdgePriority (initializeEmptyMap s0) = Inr s'
                \<or> generateMapTraditional (initializeEmptyMap s0) = Inr s')
               \<and> (fst (isSolvableE s') \<or> m \<ge> 30)"
  using assms
proof (induction s n rule: generateRandomMapLoop.induct)
  case (1 s attempts)
  let ?body = "if attempts < 15 then generateMapWithEdgePriority (initializeEmptyMap s)
               else generateMapTraditional (initializeEmptyMap s)"
  from "1.prems" obtain s1 where g: "?body = Inr s1"
    by (subst (asm) generateRandomMapLoop.simps) (cases ?body, auto)
  have e: "isSolvableE s1 = (fst (isSolvableE s1), s1)" by (simp add: isSolvableE_same)
  show ?case
  proof (cases "\<not> fst (isSolvableE s1) \<and> attempts + 1 < 30")
    case True
    with "1.prems" g e have r: "generateRandomMapLoop s1 (attempts + 1) = Inr (s', m)"
      by (subst (asm) generateRandomMapLoop.simps) (simp add: isSolvableE_same)
    from "1.IH"[OF g e[symmetric] True r] show ?thesis by auto
  next
    case False
    with "1.prems" g e have "s' = s1 \<and> m = attempts + 1"
      by (subst (asm) generateRandomMapLoop.simps) (auto simp: isSolvableE_same split: if_splits)
    with g False show ?thesis by (intro exI[of _ s]) (auto split: if_splits)
  qed
qed

lemma createMapLoop_last:
  assumes "createMapLoop s n = Inr (s', m)"
  shows "\<exists>s0. generateRandomMap s0 = Inr s' \<and> (fst (isSolvableE s') \<or> m \<ge> 100)"
  using assms
proof (induction s n rule: createMapLoop.induct)
  case (1 s attempts)
  from "1.prems" obtain s1 where g: "generateRandomMap s = Inr s1"
    by (subst (asm) createMapLoop.simps) (cases "generateRandomMap s", auto)
  have e: "isSolvableE s1 = (fst (isSolvableE s1), s1)" by (simp add: isSolvableE_same)
  show ?case
  proof (cases "\<not> fst (isSolvableE s1) \<and> attempts + 1 < 100")
    case True
    with "1.prems" g e have r: "createMapLoop s1 (attempts + 1) = Inr (s', m)"
      by (subst (asm) createMapLoop.simps) (simp add: isSolvableE_same)
    from "1.IH"[OF g e[symmetric] True r] show ?thesis by auto
  next
    case False
    with "1.prems" g e have "s' = s1 \<and> m = attempts + 1"
      by (subst (asm) createMapLoop.simps) (auto simp: isSolvableE_same split: if_splits)
    with g False show ?thesis by (intro exI[of _ s]) auto
  qed
qed

lemma disorderLoop_preserves:
  assumes "disorderLoop s n = Inr (s', m)"
    and "P s"
    and "\<And>a b. P a \<Longrightarrow> smartDisorderEdgeFirst a = Inr b \<Longrightarrow> P b"
    and "\<And>a. P a \<Longrightarrow> P (smartDisorderSpread a)"
    and "\<And>a b. P a \<Longrightarrow> randomDisorder a = Inr b \<Longrightarrow> P b"
  shows "P s' \<and> (fst (isSolvableE s') \<or> m \<ge> 200)"
  using assms(1,2)
proof (induction s n rule: disorderLoop.induct)
  case (1 s attempts)
  let ?body = "if attempts < 50 then smartDisorderEdgeFirst s
               else if attempts < 100 then Inr (smartDisorderSpread s)
               else randomDisorder s"
  from "1.prems"(1) obtain s1 where g: "?body = Inr s1"
    by (subst (asm) disorderLoop.simps) (cases ?body, auto)
  have p1: "P s1"
    using g "1.prems"(2) assms(3)[of s s1] assms(4)[of s] assms(5)[of s s1]
    by (auto split: if_splits)
  have e: "isSolvableE s1 = (fst (isSolvableE s1), s1)" by (simp add: isSolvableE_same)
  show ?case
  proof (cases "\<not> fst (isSolvableE s1) \<and> attempts + 1 < 200")
    case True
    with "1.prems"(1) g e have r: "disorderLoop s1 (attempts + 1) = Inr (s', m)"
      by (subst (asm) disorderLoop.simps) (simp add: isSolvableE_same)
    from "1.IH"[OF g e[symmetric] True r p1] show ?thesis .
  next
    case False
    with "1.prems"(1) g e have "s' = s1 \<and> m = attempts + 1"
      by (subst (asm) disorderLoop.simps) (auto simp: isSolvableE_same split: if_splits)
    with p1 False show ?thesis by auto
  qed
qed

section \<open>The grid through the map generator\<close>

lemma gridOK_cong:
  "rows s' = rows s \<Longrightarrow> cols s' = cols s \<Longrightarrow> pictures s' = pictures s \<Longrightarrow> gridOK s' = gridOK s"
  by (simp add: gridOK_def)

lemma generateLetterPairs_pictures:
  assumes "generateLetterPairs s = Inr (ls, s')"
  shows "s' = s\<lparr>random := random s'\<rparr>"
proof -
  let ?l = "letterLoop ((rows s - 2) * (cols s - 2) div 2)
           (if targetLetter s \<noteq> [] then [toLowerCase (targetLetter s), toUpperCase (targetLetter s)] else [])
           (if targetLetter s \<noteq> [] then [toLowerCase (targetLetter s)] else []) (random s)"
  from assms obtain rnd where "?l = Inr (ls, rnd)" "s' = s\<lparr>random := rnd\<rparr>"
    unfolding generateLetterPairs_def Let_def by (cases ?l) auto
  then show ?thesis by simp
qed

lemma randomSort_pictures:
  assumes "randomSort xs s = Inr (ys, s')"
  shows "s' = s\<lparr>random := random s'\<rparr>"
proof -
  from assms obtain rnd where "shuffleLoop (length xs) xs (random s) = Inr (ys, rnd)" "s' = s\<lparr>random := rnd\<rparr>"
    unfolding randomSort_def by (cases "shuffleLoop (length xs) xs (random s)") auto
  then show ?thesis by simp
qed

lemma gridOK_random [simp]: "gridOK (s\<lparr>random := r\<rparr>) = gridOK s"
  by (simp add: gridOK_def)

lemma gridOK_events [simp]: "gridOK (s\<lparr>events := r\<rparr>) = gridOK s"
  by (simp add: gridOK_def)

lemma gridOK_notify [simp]: "gridOK (notify e s) = gridOK s"
  by (simp add: gridOK_def notify_def)

lemma gridOK_emit [simp]: "gridOK (emit h e s) = gridOK s"
  by (simp add: gridOK_def emit_def)

lemma gridOK_initializeEmptyMap [simp]: "gridOK (initializeEmptyMap s)"
proof -
  have "wellFormed (rows s) (cols s) (replicate (nat (rows s)) (replicate (nat (cols s)) emptyCell))"
    by (simp add: wellFormed_def list_all_iff)
  moreover have "borderUntouched (rows s) (cols s) (replicate (nat (rows s)) (replicate (nat (cols s)) emptyCell))"
    unfolding borderUntouched_iff by (auto simp: cellAt_def)
  ultimately show ?thesis by (simp add: gridOK_def initializeEmptyMap_def)
qed

lemma placeLetter_unfold:
  assumes "placeLetter p l s = Inr s'"
  shows "\<exists>r rnd. random s = r # rnd \<and>
     s' = s\<lparr>pictures := setCell (pictures s) (fst p) (snd p)
                    \<lparr>isEmpty = False, type = letterType l, pic = l, index = Some (int (r mod 1000))\<rparr>,
            random := rnd\<rparr>"
  using assms unfolding placeLetter_def by (cases "random s") auto

lemma placeLetter_gridOK:
  assumes "placeLetter p l s = Inr s'" "inPlayArea (rows s) (cols s) (fst p) (snd p)" "gridOK s"
  shows "gridOK s' \<and> rows s' = rows s \<and> cols s' = cols s"
proof -
  from placeLetter_unfold[OF assms(1)] obtain r rnd where
    s': "s' = s\<lparr>pictures := setCell (pictures s) (fst p) (snd p)
                    \<lparr>isEmpty = False, type = letterType l, pic = l, index = Some (int (r mod 1000))\<rparr>,
            random := rnd\<rparr>" by blast
  show ?thesis
    unfolding s' using assms(2,3) by (simp add: gridOK_def borderUntouched_setCell)
qed

lemma placePairs_gridOK:
  assumes "placePairs ps lps i s = Inr s'" "gridOK s"
    and "\<forall>p \<in> set ps. inPlayArea (rows s) (cols s) (fst p) (snd p)"
  shows "gridOK s' \<and> rows s' = rows s \<and> cols s' = cols s"
  using assms
proof (induction lps arbitrary: i s)
  case Nil
  then show ?case by simp
next
  case (Cons pair lps)
  show ?case
  proof (cases "i * 2 < length ps")
    case False
    with Cons.prems(1,2) show ?thesis by simp
  next
    case True
    with Cons.prems(1) obtain s1 where a: "placeLetter (ps ! (i * 2)) (pair ! 0) s = Inr s1"
      by (cases "placeLetter (ps ! (i * 2)) (pair ! 0) s") auto
    with Cons.prems(1) True have t: "i * 2 + 1 < length ps"
      by (auto split: if_splits)
    with Cons.prems(1) True a obtain s2 where b: "placeLetter (ps ! (i * 2 + 1)) (pair ! 1) s1 = Inr s2"
      by (cases "placeLetter (ps ! (i * 2 + 1)) (pair ! 1) s1") auto
    with Cons.prems(1) True a t have c: "placePairs ps lps (i + 1) s2 = Inr s'" by simp
    from True Cons.prems(3) have pa: "inPlayArea (rows s) (cols s) (fst (ps ! (i * 2))) (snd (ps ! (i * 2)))"
      by (meson nth_mem)
    from placeLetter_gridOK[OF a pa Cons.prems(2)] have g1: "gridOK s1" "rows s1 = rows s" "cols s1 = cols s"
      by simp_all
    from t Cons.prems(3) g1 have pb: "inPlayArea (rows s1) (cols s1) (fst (ps ! (i * 2 + 1))) (snd (ps ! (i * 2 + 1)))"
      by (metis nth_mem)
    from placeLetter_gridOK[OF b pb g1(1)] g1 have g2: "gridOK s2" "rows s2 = rows s" "cols s2 = cols s"
      by simp_all
    from Cons.IH[OF c g2(1)] Cons.prems(3) g2 show ?thesis by simp
  qed
qed

lemma placeAll_gridOK:
  assumes "placeAll xs s = Inr s'" "gridOK s"
    and "\<forall>(p, l) \<in> set xs. inPlayArea (rows s) (cols s) (fst p) (snd p)"
  shows "gridOK s' \<and> rows s' = rows s \<and> cols s' = cols s"
  using assms
proof (induction xs arbitrary: s)
  case Nil
  then show ?case by simp
next
  case (Cons x xs)
  obtain p l where x: "x = (p, l)" by (cases x) auto
  from Cons.prems(1) obtain s1 where a: "placeLetter p l s = Inr s1" and c: "placeAll xs s1 = Inr s'"
    unfolding x by (cases "placeLetter p l s") auto
  from Cons.prems(3) have pa: "inPlayArea (rows s) (cols s) (fst p) (snd p)" by (simp add: x)
  from placeLetter_gridOK[OF a pa Cons.prems(2)] have g1: "gridOK s1" "rows s1 = rows s" "cols s1 = cols s"
    by simp_all
  from Cons.IH[OF c g1(1)] Cons.prems(3) g1 show ?case by simp
qed

lemma placeTemplate_gridOK:
  assumes "placeTemplate xs s = Inr s'" "gridOK s"
    and "\<forall>((i, j), pair) \<in> set xs. inPlayArea (rows s) (cols s) i j \<and> inPlayArea (rows s) (cols s) i (j + 1)"
  shows "gridOK s' \<and> rows s' = rows s \<and> cols s' = cols s"
  using assms
proof (induction xs arbitrary: s)
  case Nil
  then show ?case by simp
next
  case (Cons x xs)
  obtain i j pair where x: "x = ((i, j), pair)" by (cases x) auto
  from Cons.prems(1) obtain s1 where a: "placeLetter (i, j) (pair ! 0) s = Inr s1"
    unfolding x by (cases "placeLetter (i, j) (pair ! 0) s") auto
  with Cons.prems(1) obtain s2 where b: "placeLetter (i, j + 1) (pair ! 1) s1 = Inr s2"
    unfolding x by (cases "placeLetter (i, j + 1) (pair ! 1) s1") auto
  with Cons.prems(1) a have c: "placeTemplate xs s2 = Inr s'" unfolding x by simp
  from Cons.prems(3) have pa: "inPlayArea (rows s) (cols s) i j" "inPlayArea (rows s) (cols s) i (j + 1)"
    by (simp_all add: x)
  from placeLetter_gridOK[OF a _ Cons.prems(2)] pa have g1: "gridOK s1" "rows s1 = rows s" "cols s1 = cols s"
    by simp_all
  from placeLetter_gridOK[OF b _ g1(1)] pa g1 have g2: "gridOK s2" "rows s2 = rows s" "cols s2 = cols s"
    by simp_all
  from Cons.IH[OF c g2(1)] Cons.prems(3) g2 show ?case by simp
qed

lemma sortByEdge_set [simp]: "set (sortByEdge s ps) = set ps"
  by (simp add: sortByEdge_def)

lemma templateSlots_iff:
  "(i, j) \<in> set (templateSlots nrows ncols) \<longleftrightarrow> 1 \<le> i \<and> i \<le> nrows - 2 \<and> 1 \<le> j \<and> j \<le> ncols - 4 \<and> odd j"
  by (force simp: templateSlots_def)

lemma generateMapWithEdgePriority_gridOK:
  assumes "generateMapWithEdgePriority s = Inr s'" "gridOK s"
  shows "gridOK s' \<and> rows s' = rows s \<and> cols s' = cols s"
proof -
  from assms(1) obtain letters s1 where a: "generateLetterPairs s = Inr (letters, s1)"
    by (cases "generateLetterPairs s") (auto simp: generateMapWithEdgePriority_def)
  with assms(1) have b: "placePairs (sortByEdge s1 (getAllValidPositions s1)) (groupIntoLetterPairs letters) 0 s1 = Inr s'"
    by (simp add: generateMapWithEdgePriority_def)
  from generateLetterPairs_pictures[OF a] have s1: "s1 = s\<lparr>random := random s1\<rparr>" .
  have g1: "gridOK s1" "rows s1 = rows s" "cols s1 = cols s"
    using assms(2) by (subst s1, simp)+
  have "\<forall>p \<in> set (sortByEdge s1 (getAllValidPositions s1)). inPlayArea (rows s1) (cols s1) (fst p) (snd p)"
    by (auto simp: getAllValidPositions_def playPositions_iff)
  from placePairs_gridOK[OF b g1(1) this] g1 show ?thesis by simp
qed

lemma generateMapTraditional_gridOK:
  assumes "generateMapTraditional s = Inr s'" "gridOK s"
  shows "gridOK s' \<and> rows s' = rows s \<and> cols s' = cols s"
proof -
  from assms(1) obtain letters s1 where a: "generateLetterPairs s = Inr (letters, s1)"
    by (cases "generateLetterPairs s") (auto simp: generateMapTraditional_def)
  with assms(1) obtain shuffled s2 where b: "randomSort letters s1 = Inr (shuffled, s2)"
    by (cases "randomSort letters s1") (auto simp: generateMapTraditional_def)
  with assms(1) a have c: "placeAll (zip (playPositions (rows s2) (cols s2)) shuffled) s2 = Inr s'"
    by (simp add: generateMapTraditional_def)
  from generateLetterPairs_pictures[OF a] have s1: "s1 = s\<lparr>random := random s1\<rparr>" .
  from randomSort_pictures[OF b] have s2: "s2 = s1\<lparr>random := random s2\<rparr>" .
  have g1: "gridOK s1" "rows s1 = rows s" "cols s1 = cols s"
    using assms(2) by (subst s1, simp)+
  have g2: "gridOK s2" "rows s2 = rows s" "cols s2 = cols s"
    using g1 by (subst s2, simp)+
  have "\<forall>(p, l) \<in> set (zip (playPositions (rows s2) (cols s2)) shuffled).
          inPlayArea (rows s2) (cols s2) (fst p) (snd p)"
    by (auto dest!: set_zip_leftD simp: playPositions_iff)
  from placeAll_gridOK[OF c g2(1) this] g2 show ?thesis by simp
qed

lemma rows_initializeEmptyMap [simp]:
  "rows (initializeEmptyMap s) = rows s" "cols (initializeEmptyMap s) = cols s"
  by (simp_all add: initializeEmptyMap_def)

lemma generateSolvableTemplate_gridOK:
  assumes "generateSolvableTemplate s = Inr s'"
  shows "gridOK s' \<and> rows s' = rows s \<and> cols s' = cols s"
proof -
  from assms obtain letters s1 where a: "generateLetterPairs (initializeEmptyMap s) = Inr (letters, s1)"
    by (cases "generateLetterPairs (initializeEmptyMap s)") (auto simp: generateSolvableTemplate_def)
  with assms have b: "placeTemplate (zip (templateSlots (rows s1) (cols s1)) (groupIntoLetterPairs letters)) s1 = Inr s'"
    by (simp add: generateSolvableTemplate_def)
  from generateLetterPairs_pictures[OF a] have s1: "s1 = (initializeEmptyMap s)\<lparr>random := random s1\<rparr>" .
  have g1: "gridOK s1" "rows s1 = rows s" "cols s1 = cols s"
    by (subst s1, simp)+
  have "\<forall>((i, j), pair) \<in> set (zip (templateSlots (rows s1) (cols s1)) (groupIntoLetterPairs letters)).
          inPlayArea (rows s1) (cols s1) i j \<and> inPlayArea (rows s1) (cols s1) i (j + 1)"
    by (auto dest!: set_zip_leftD simp: templateSlots_iff inPlayArea_def)
  from placeTemplate_gridOK[OF b g1(1) this] g1 show ?thesis by simp
qed

lemma generateRandomMap_gridOK:
  assumes "generateRandomMap s = Inr s'"
  shows "gridOK s' \<and> rows s' = rows s \<and> cols s' = cols s"
proof -
  from sameSession_generateRandomMap[OF assms] have rc: "rows s' = rows s" "cols s' = cols s"
    by (simp_all add: sameSession_def)
  from assms obtain s1 n where l: "generateRandomMapLoop s 0 = Inr (s1, n)"
    by (cases "generateRandomMapLoop s 0") (auto simp: generateRandomMap_def)
  have "gridOK s'"
  proof (cases "n \<ge> 30")
    case True
    with assms l have "generateSolvableTemplate (notify (ConsoleWarn TemplateUsed) s1) = Inr s'"
      by (simp add: generateRandomMap_def)
    from generateSolvableTemplate_gridOK[OF this] show ?thesis by simp
  next
    case False
    with assms l have s': "s' = s1" by (simp add: generateRandomMap_def)
    from generateRandomMapLoop_last[OF l] obtain s0 where
      "generateMapWithEdgePriority (initializeEmptyMap s0) = Inr s1
        \<or> generateMapTraditional (initializeEmptyMap s0) = Inr s1" by blast
    then show ?thesis unfolding s'
      using generateMapWithEdgePriority_gridOK[of "initializeEmptyMap s0" s1]
        generateMapTraditional_gridOK[of "initializeEmptyMap s0" s1] by auto
  qed
  with rc show ?thesis by simp
qed

lemma createMap_gridOK:
  assumes "createMap s = Inr s'"
  shows "gridOK s' \<and> rows s' = rows s \<and> cols s' = cols s"
proof -
  from sameSession_createMap[OF assms] have rc: "rows s' = rows s" "cols s' = cols s"
    by (simp_all add: sameSession_def)
  from assms obtain s1 n where l: "createMapLoop s 0 = Inr (s1, n)"
    by (cases "createMapLoop s 0") (auto simp: createMap_def)
  from createMapLoop_last[OF l] obtain s0 where "generateRandomMap s0 = Inr s1" by blast
  from generateRandomMap_gridOK[OF this] have g: "gridOK s1" by simp
  have "gridOK s'"
  proof (cases "n \<ge> 100")
    case True
    with assms l have "s' = notify (ConsoleWarn MapUnsolvable) s1" by (simp add: createMap_def)
    with g show ?thesis by simp
  next
    case False
    with assms l have "s' = s1" by (simp add: createMap_def)
    with g show ?thesis by simp
  qed
  with rc show ?thesis by simp
qed

section \<open>The grid through the reshuffle\<close>

text \<open>Writing a character keeps the shape of the grid, the border and the occupancy.\<close>

lemma writeCharacter_keeps:
  assumes "inPlayArea nrows ncols (fst p) (snd p)"
  shows "wellFormed nrows ncols (writeCharacter g p ch) = wellFormed nrows ncols g"
    and "borderUntouched nrows ncols g \<Longrightarrow> borderUntouched nrows ncols (writeCharacter g p ch)"
    and "occupancy (writeCharacter g p ch) = occupancy g"
proof -
  obtain i j where p: "p = (i, j)" by (cases p) auto
  obtain t l ix where ch: "ch = (t, l, ix)" by (cases ch) auto
  have w: "writeCharacter g p ch = setCell g i j ((cellAt g i j)\<lparr>type := t, pic := l, index := Some ix\<rparr>)"
    by (simp add: writeCharacter_def p ch)
  show "wellFormed nrows ncols (writeCharacter g p ch) = wellFormed nrows ncols g"
    by (simp add: w)
  show "borderUntouched nrows ncols g \<Longrightarrow> borderUntouched nrows ncols (writeCharacter g p ch)"
    unfolding w using assms by (intro borderUntouched_setCell) (simp_all add: p)
  show "occupancy (writeCharacter g p ch) = occupancy g"
    unfolding w by (rule occupancy_setCell) (simp add: emptyAt_def)
qed

lemma gridKept_refl [simp]: "gridKept nrows ncols g g"
  by (simp add: gridKept_def)

lemma gridKept_trans:
  "gridKept nrows ncols g g1 \<Longrightarrow> gridKept nrows ncols g1 g2 \<Longrightarrow> gridKept nrows ncols g g2"
  by (simp add: gridKept_def)

lemma gridKept_writeCharacter:
  "inPlayArea nrows ncols (fst p) (snd p) \<Longrightarrow> gridKept nrows ncols g (writeCharacter g p ch)"
  using writeCharacter_keeps[of nrows ncols p g ch] by (simp add: gridKept_def)

lemma gridKept_writeAll:
  assumes "\<forall>(p, ch) \<in> set xs. inPlayArea nrows ncols (fst p) (snd p)"
  shows "gridKept nrows ncols g (writeAll xs g)"
  using assms
proof (induction xs arbitrary: g)
  case Nil
  then show ?case by (simp add: writeAll_def)
next
  case (Cons x xs)
  obtain p ch where x: "x = (p, ch)" by (cases x) auto
  have w: "writeAll (x # xs) g = writeAll xs (writeCharacter g p ch)"
    by (simp add: writeAll_def x)
  from Cons.prems have pa: "inPlayArea nrows ncols (fst p) (snd p)" by (simp add: x)
  from Cons.prems have "\<forall>(p, ch) \<in> set xs. inPlayArea nrows ncols (fst p) (snd p)" by simp
  from gridKept_trans[OF gridKept_writeCharacter[OF pa] Cons.IH[OF this]]
  show ?case unfolding w .
qed

lemma spreadLoop_kept:
  assumes "\<forall>p \<in> set ps. inPlayArea nrows ncols (fst p) (snd p)" "ps \<noteq> []"
  shows "gridKept nrows ncols g (spreadLoop ps groups k g)"
proof (induction groups arbitrary: k g)
  case Nil
  then show ?case by simp
next
  case (Cons grp groups)
  show ?case
  proof (cases "length grp = 2")
    case False
    with Cons.IH show ?thesis by simp
  next
    case True
    from assms(2) have l: "k mod length ps < length ps" "(k + length ps div 2) mod length ps < length ps"
      by simp_all
    with assms(1) have pa: "inPlayArea nrows ncols (fst (ps ! (k mod length ps))) (snd (ps ! (k mod length ps)))"
      "inPlayArea nrows ncols (fst (ps ! ((k + length ps div 2) mod length ps)))
         (snd (ps ! ((k + length ps div 2) mod length ps)))"
      by (meson nth_mem)+
    let ?g1 = "writeCharacter g (ps ! (k mod length ps)) (grp ! 0)"
    let ?g2 = "writeCharacter ?g1 (ps ! ((k + length ps div 2) mod length ps)) (grp ! 1)"
    have "gridKept nrows ncols g ?g2"
      by (rule gridKept_trans[OF gridKept_writeCharacter[OF pa(1)] gridKept_writeCharacter[OF pa(2)]])
    from gridKept_trans[OF this Cons.IH[of ?g2 "k + 2"]] True show ?thesis
      by (simp add: Let_def)
  qed
qed

lemma spreadLoop_no_positions: "groups = [] \<Longrightarrow> spreadLoop ps groups k g = g"
  by simp

lemma linearSlots_iff:
  "(i, j) \<in> set (linearSlots nrows ncols) \<longleftrightarrow> 1 \<le> i \<and> i \<le> nrows - 2 \<and> 1 \<le> j \<and> j \<le> ncols - 2 \<and> odd j"
  by (force simp: linearSlots_def)

lemma linearLoop_kept:
  assumes "\<forall>(i, j) \<in> set slots. inPlayArea nrows ncols i j"
  shows "gridKept nrows ncols g (linearLoop ncols slots pairs g)"
  using assms
proof (induction ncols slots pairs g rule: linearLoop.induct)
  case (1 ncols pairs g)
  then show ?case by simp
next
  case (2 ncols slot slots g)
  then show ?case by simp
next
  case (3 ncols i j slots pair pairs g)
  from "3.prems" have pa: "inPlayArea nrows ncols i j" and rest: "\<forall>(i, j) \<in> set slots. inPlayArea nrows ncols i j"
    by simp_all
  show ?case
  proof (cases "\<not> emptyAt g i j \<and> \<not> emptyAt g i (j + 1)")
    case False
    with "3.IH"(2)[OF _ rest] show ?thesis by auto
  next
    case True
    let ?g1 = "writeCharacter g (i, j) (pair ! 0)"
    let ?g2 = "if j + 1 < ncols - 1 then writeCharacter ?g1 (i, j + 1) (pair ! 1) else ?g1"
    have k1: "gridKept nrows ncols g ?g1" using pa by (intro gridKept_writeCharacter) simp
    have k2: "gridKept nrows ncols ?g1 ?g2"
    proof (cases "j + 1 < ncols - 1")
      case False
      then show ?thesis by simp
    next
      case T: True
      with pa have "inPlayArea nrows ncols i (j + 1)" by (simp add: inPlayArea_def)
      then have "gridKept nrows ncols ?g1 (writeCharacter ?g1 (i, j + 1) (pair ! 1))"
        by (intro gridKept_writeCharacter) simp
      with T show ?thesis by simp
    qed
    from "3.IH"(1)[OF True refl refl rest] have k3: "gridKept nrows ncols ?g2 (linearLoop ncols slots pairs ?g2)" .
    from gridKept_trans[OF gridKept_trans[OF k1 k2] k3] True show ?thesis by (simp add: Let_def)
  qed
qed

lemma boardKept_refl [simp]: "boardKept s s"
  by (simp add: boardKept_def)

lemma boardKept_trans: "boardKept s s1 \<Longrightarrow> boardKept s1 s2 \<Longrightarrow> boardKept s s2"
  unfolding boardKept_def using gridKept_trans[of "rows s" "cols s" "pictures s" "pictures s1" "pictures s2"]
  by simp

lemma boardKept_gridOK: "boardKept s s' \<Longrightarrow> gridOK s \<Longrightarrow> gridOK s'"
  by (simp add: boardKept_def gridKept_def gridOK_def)

lemma boardKept_same_pictures:
  "rows s' = rows s \<Longrightarrow> cols s' = cols s \<Longrightarrow> pictures s' = pictures s \<Longrightarrow> boardKept s s'"
  by (simp add: boardKept_def)

lemma occupiedPositions_play:
  "p \<in> set (occupiedPositions nrows ncols g) \<Longrightarrow> inPlayArea nrows ncols (fst p) (snd p)"
  by (cases p) (auto simp: occupiedPositions_def playPositions_iff)

lemma smartDisorderEdgeFirst_kept:
  assumes "smartDisorderEdgeFirst s = Inr s'"
  shows "boardKept s s'"
proof -
  from assms obtain shuffled s1 where a: "randomSort (collectCharacters s) s = Inr (shuffled, s1)"
    by (cases "randomSort (collectCharacters s) s") (auto simp: smartDisorderEdgeFirst_def Let_def)
  let ?ps = "sortByEdge s (occupiedPositions (rows s) (cols s) (pictures s))"
  from assms a have s': "s' = s1\<lparr>pictures := writeAll (zip ?ps shuffled) (pictures s1)\<rparr>"
    by (simp add: smartDisorderEdgeFirst_def Let_def)
  from randomSort_pictures[OF a] have s1: "s1 = s\<lparr>random := random s1\<rparr>" .
  have s1f: "rows s1 = rows s" "cols s1 = cols s" "pictures s1 = pictures s"
    by (subst s1, simp)+
  have "\<forall>(p, ch) \<in> set (zip ?ps shuffled). inPlayArea (rows s) (cols s) (fst p) (snd p)"
    by (auto dest!: set_zip_leftD occupiedPositions_play)
  from gridKept_writeAll[OF this, of "pictures s"] show ?thesis
    unfolding s' by (simp add: boardKept_def s1f)
qed

lemma randomDisorder_kept:
  assumes "randomDisorder s = Inr s'"
  shows "boardKept s s'"
proof -
  from assms obtain shuffled s1 where a: "randomSort (collectCharacters s) s = Inr (shuffled, s1)"
    by (cases "randomSort (collectCharacters s) s") (auto simp: randomDisorder_def Let_def)
  let ?ps = "occupiedPositions (rows s) (cols s) (pictures s)"
  from assms a have s': "s' = s1\<lparr>pictures := writeAll (zip ?ps shuffled) (pictures s1)\<rparr>"
    by (simp add: randomDisorder_def Let_def)
  from randomSort_pictures[OF a] have s1: "s1 = s\<lparr>random := random s1\<rparr>" .
  have s1f: "rows s1 = rows s" "cols s1 = cols s" "pictures s1 = pictures s"
    by (subst s1, simp)+
  have "\<forall>(p, ch) \<in> set (zip ?ps shuffled). inPlayArea (rows s) (cols s) (fst p) (snd p)"
    by (auto dest!: set_zip_leftD occupiedPositions_play)
  from gridKept_writeAll[OF this, of "pictures s"] show ?thesis
    unfolding s' by (simp add: boardKept_def s1f)
qed

lemma groupBy_Nil [simp]: "groupBy f [] = []"
  by (simp add: groupBy_def)

lemma objectValues_Nil [simp]: "objectValues [] = []"
  by (simp add: objectValues_def)

lemma smartDisorderSpread_kept: "boardKept s (smartDisorderSpread s)"
proof -
  let ?ps = "occupiedPositions (rows s) (cols s) (pictures s)"
  let ?groups = "objectValues (groupBy (\<lambda>(t, p, ix). toLowerCase p) (collectCharacters s))"
  have s': "smartDisorderSpread s = s\<lparr>pictures := spreadLoop ?ps ?groups 0 (pictures s)\<rparr>"
    by (simp add: smartDisorderSpread_def Let_def)
  have "gridKept (rows s) (cols s) (pictures s) (spreadLoop ?ps ?groups 0 (pictures s))"
  proof (cases "?ps = []")
    case True
    then have "collectCharacters s = []" by (simp add: collectCharacters_def)
    then show ?thesis by simp
  next
    case False
    have "\<forall>p \<in> set ?ps. inPlayArea (rows s) (cols s) (fst p) (snd p)"
      by (auto dest!: occupiedPositions_play)
    from spreadLoop_kept[OF this False] show ?thesis .
  qed
  then show ?thesis unfolding s' by (simp add: boardKept_def)
qed

lemma generateLinearLayout_kept: "boardKept s (generateLinearLayout s)"
proof -
  have "\<forall>(i, j) \<in> set (linearSlots (rows s) (cols s)). inPlayArea (rows s) (cols s) i j"
    by (auto simp: linearSlots_iff inPlayArea_def)
  from linearLoop_kept[OF this] show ?thesis
    by (simp add: generateLinearLayout_def Let_def boardKept_def)
qed

lemma disorderLoop_kept:
  assumes "disorderLoop s n = Inr (s', m)"
  shows "boardKept s s'"
proof -
  have "boardKept s s' \<and> (fst (isSolvableE s') \<or> m \<ge> 200)"
    by (rule disorderLoop_preserves[OF assms, where P = "boardKept s"])
       (auto intro: boardKept_trans smartDisorderEdgeFirst_kept randomDisorder_kept
                    smartDisorderSpread_kept)
  then show ?thesis by simp
qed

lemma forceGenerateSolvableLayout_gridOK:
  assumes "forceGenerateSolvableLayout s = Inr s'"
  shows "gridOK s'"
proof -
  let ?s0 = "notify (ToastError ForcedLayout) (notify (ConsoleError ForcedLayout) s)"
  from assms obtain s1 where g: "generateRandomMap ?s0 = Inr s1"
    by (cases "generateRandomMap ?s0") (auto simp: forceGenerateSolvableLayout_def)
  from generateRandomMap_gridOK[OF g] have g1: "gridOK s1" by simp
  from assms g have "s' = s1 \<or> s' = generateLinearLayout s1"
    by (auto simp: forceGenerateSolvableLayout_def isSolvableE_same split: if_splits)
  with g1 boardKept_gridOK[OF generateLinearLayout_kept[of s1]] show ?thesis by auto
qed

lemma events_extend:
  assumes "take (length (events a)) (events b) = events a" "e \<in> set (drop n (events a))"
  shows "e \<in> set (drop n (events b))"
proof -
  from assms(1) have "events b = events a @ drop (length (events a)) (events b)"
    by (metis append_take_drop_id)
  then have "drop n (events b) = drop n (events a) @ drop (n - length (events a)) (drop (length (events a)) (events b))"
    by (metis drop_append)
  with assms(2) show ?thesis by simp
qed

lemma events_length:
  assumes "take (length (events a)) (events b) = events a"
  shows "length (events a) \<le> length (events b)"
  by (metis assms length_take min.cobounded1)

lemma forceGenerateSolvableLayout_notice:
  assumes "forceGenerateSolvableLayout s = Inr s'"
  shows "ToastError ForcedLayout \<in> set (drop (length (events s)) (events s'))"
proof -
  let ?s0 = "notify (ToastError ForcedLayout) (notify (ConsoleError ForcedLayout) s)"
  have a: "ToastError ForcedLayout \<in> set (drop (length (events s)) (events ?s0))" by simp
  from assms obtain s1 where g: "generateRandomMap ?s0 = Inr s1"
    by (cases "generateRandomMap ?s0") (auto simp: forceGenerateSolvableLayout_def)
  from assms g have s': "s' = s1 \<or> s' = generateLinearLayout s1"
    by (auto simp: forceGenerateSolvableLayout_def isSolvableE_same split: if_splits)
  from sameSession_generateRandomMap[OF g] have b: "take (length (events ?s0)) (events s1) = events ?s0"
    by (simp add: sameSession_def)
  from events_extend[OF b a] have c: "ToastError ForcedLayout \<in> set (drop (length (events s)) (events s1))" .
  have "take (length (events s1)) (events (generateLinearLayout s1)) = events s1"
    using sameSession_generateLinearLayout[of s1] by (simp add: sameSession_def)
  from events_extend[OF this c] c s' show ?thesis by auto
qed

lemma disorder_grid:
  assumes "disorder s = Inr s'"
  shows "gridOK s \<longrightarrow> gridOK s'"
    and "ToastError ForcedLayout \<notin> set (drop (length (events s)) (events s')) \<longrightarrow> boardKept s s'"
proof -
  from disorder_unfold[OF assms] obtain s1 n s2 where
    l: "disorderLoop s 0 = Inr (s1, n)"
    and f: "(if n \<ge> 200 then forceGenerateSolvableLayout (notify (ConsoleWarn ReshuffleUnsolvable) s1)
            else Inr s1) = Inr s2" and r: "s' = renderMap s2" by blast
  have k1: "boardKept s s1" using l by (rule disorderLoop_kept)
  have e1: "take (length (events s)) (events s1) = events s"
    using sameSession_disorderLoop[OF l] by (simp add: sameSession_def)
  show "gridOK s \<longrightarrow> gridOK s'"
  proof (cases "n \<ge> 200")
    case True
    with f have "forceGenerateSolvableLayout (notify (ConsoleWarn ReshuffleUnsolvable) s1) = Inr s2" by simp
    from forceGenerateSolvableLayout_gridOK[OF this] show ?thesis
      unfolding r by (simp add: renderMap_def)
  next
    case False
    with f have "s2 = s1" by simp
    with boardKept_gridOK[OF k1] show ?thesis unfolding r by (simp add: renderMap_def)
  qed
  show "ToastError ForcedLayout \<notin> set (drop (length (events s)) (events s')) \<longrightarrow> boardKept s s'"
  proof (cases "n \<ge> 200")
    case True
    let ?w = "notify (ConsoleWarn ReshuffleUnsolvable) s1"
    from True f have ff: "forceGenerateSolvableLayout ?w = Inr s2" by simp
    from forceGenerateSolvableLayout_notice[OF ff]
    have "ToastError ForcedLayout \<in> set (drop (length (events ?w)) (events s2))" .
    then have "ToastError ForcedLayout \<in> set (drop (length (events s)) (events s2))"
      using events_length[OF e1] by (metis drop_drop in_set_dropD le_add_diff_inverse2 notify_fields(19) length_append_singleton le_SucI)
    then have "ToastError ForcedLayout \<in> set (drop (length (events s)) (events s'))"
      unfolding r renderMap_def by (auto simp: emit_def)
    then show ?thesis by simp
  next
    case False
    with f have "s2 = s1" by simp
    with k1 show ?thesis unfolding r by (simp add: renderMap_def boardKept_def emit_def)
  qed
qed

section \<open>The grid through the session\<close>

lemma gridInvariant_cong:
  "rows s' = rows s \<Longrightarrow> cols s' = cols s \<Longrightarrow> pictures s' = pictures s
     \<Longrightarrow> gridInvariant s' = gridInvariant s"
  by (simp add: gridInvariant_def gridOK_def)

lemma keepsPlay_dims: "keepsPlay s s' \<Longrightarrow> rows s' = rows s \<and> cols s' = cols s"
  by (simp add: keepsPlay_def keeps_def)

lemma keeps_dims: "keeps s s' \<Longrightarrow> rows s' = rows s \<and> cols s' = cols s"
  by (simp add: keeps_def)

lemma boardKept_gridInvariant:
  assumes "boardKept s s'" "gridInvariant s"
  shows "gridInvariant s'"
proof (cases "pictures s = []")
  case True
  from assms(1) have "occupancy (pictures s') = occupancy (pictures s)"
    by (simp add: boardKept_def gridKept_def)
  with True have "pictures s' = []" by (simp add: occupancy_def)
  then show ?thesis by (simp add: gridInvariant_def)
next
  case False
  with assms(2) have "gridOK s" by (simp add: gridInvariant_def)
  from boardKept_gridOK[OF assms(1) this] show ?thesis by (simp add: gridInvariant_def)
qed

lemma disorder_inv:
  assumes "disorder s = Inr s'" "gridInvariant s"
  shows "gridInvariant s' \<and> rows s' = rows s \<and> cols s' = cols s"
proof -
  from sameSession_disorder[OF assms(1)] have rc: "rows s' = rows s" "cols s' = cols s"
    by (simp_all add: sameSession_def)
  have "gridInvariant s'"
  proof (cases "ToastError ForcedLayout \<in> set (drop (length (events s)) (events s'))")
    case False
    with disorder_grid(2)[OF assms(1)] have "boardKept s s'" by simp
    from boardKept_gridInvariant[OF this assms(2)] show ?thesis .
  next
    case True
    from disorder_unfold[OF assms(1)] obtain s1 n s2 where
      l: "disorderLoop s 0 = Inr (s1, n)"
      and f: "(if n \<ge> 200 then forceGenerateSolvableLayout (notify (ConsoleWarn ReshuffleUnsolvable) s1)
              else Inr s1) = Inr s2" and r: "s' = renderMap s2" by blast
    show ?thesis
    proof (cases "n \<ge> 200")
      case True
      with f have "forceGenerateSolvableLayout (notify (ConsoleWarn ReshuffleUnsolvable) s1) = Inr s2" by simp
      from forceGenerateSolvableLayout_gridOK[OF this] show ?thesis
        unfolding r by (simp add: renderMap_def gridInvariant_def)
    next
      case False
      with f have "s2 = s1" by simp
      with disorderLoop_kept[OF l] have "boardKept s s'"
        unfolding r by (simp add: renderMap_def boardKept_def)
      from boardKept_gridInvariant[OF this assms(2)] show ?thesis .
    qed
  qed
  with rc show ?thesis by simp
qed

lemma init_unfold:
  assumes "init s = Inr s'"
  shows "\<exists>s3 s4. createMap (initCleared s) = Inr s3
           \<and> disorder s3 = Inr s4 \<and> s' = updateScore (s4\<lparr>remain := getActualLetterCount s4\<rparr>)"
proof -
  have i: "init s = (case createMap (initCleared s) of
           Inl e \<Rightarrow> Inl e
         | Inr s3 \<Rightarrow>
             (case disorder s3 of
                Inl e \<Rightarrow> Inl e
              | Inr s4 \<Rightarrow> Inr (updateScore (s4\<lparr>remain := getActualLetterCount s4\<rparr>))))"
    unfolding init_def initCleared_def Let_def ..
  from assms obtain s3 where a: "createMap (initCleared s) = Inr s3"
    unfolding i by (cases "createMap (initCleared s)") simp_all
  with assms obtain s4 where b: "disorder s3 = Inr s4"
    unfolding i by (cases "disorder s3") simp_all
  with assms a have "s' = updateScore (s4\<lparr>remain := getActualLetterCount s4\<rparr>)"
    unfolding i by simp
  with a b show ?thesis by blast
qed

lemma initCleared_fields:
  "rows (initCleared s) = rows s" "cols (initCleared s) = cols s"
  "score (initCleared s) = score s" "steps (initCleared s) = steps s"
  "leftDisorderTime (initCleared s) = leftDisorderTime s"
  "leftTime (initCleared s) = configInitialTime s" "timer (initCleared s)"
  "configInitialTime (initCleared s) = configInitialTime s"
  "preClickInfo (initCleared s) = None" "selectedCell (initCleared s) = None"
  "\<not> isAnimating (initCleared s)" "hooks (initCleared s) = hooks s"
  "targetLetter (initCleared s) = targetLetter s"
  "take (length (events s)) (events (initCleared s)) = events s"
  "initCleared (s\<lparr>pictures := g\<rparr>) = initCleared s"
  by (simp_all add: initCleared_def setSelectedCell_def emit_def)

lemma init_fields:
  assumes "init s = Inr s'"
  shows "gridOK s'" "rows s' = rows s" "cols s' = cols s"
    "score s' = score s" "steps s' = steps s" "leftDisorderTime s' = leftDisorderTime s"
    "leftTime s' = configInitialTime s" "timer s'" "configInitialTime s' = configInitialTime s"
    "preClickInfo s' = None" "selectedCell s' = None" "\<not> isAnimating s'"
    "hooks s' = hooks s" "targetLetter s' = targetLetter s"
    "take (length (events s)) (events s') = events s"
proof -
  from init_unfold[OF assms] obtain s3 s4 where
    a: "createMap (initCleared s) = Inr s3" and b: "disorder s3 = Inr s4"
    and c: "s' = updateScore (s4\<lparr>remain := getActualLetterCount s4\<rparr>)" by blast
  from createMap_gridOK[OF a] have g3: "gridOK s3" by simp
  from disorder_grid(1)[OF b] g3 have g4: "gridOK s4" by simp
  from sameSession_trans[OF sameSession_createMap[OF a] sameSession_disorder[OF b]]
  have ss: "sameSession (initCleared s) s4" .
  show "gridOK s'" unfolding c using g4 by (simp add: updateScore_def gridOK_def)
  from ss show "rows s' = rows s" "cols s' = cols s"
    "score s' = score s" "steps s' = steps s" "leftDisorderTime s' = leftDisorderTime s"
    "leftTime s' = configInitialTime s" "timer s'" "configInitialTime s' = configInitialTime s"
    "preClickInfo s' = None" "selectedCell s' = None" "\<not> isAnimating s'"
    "hooks s' = hooks s" "targetLetter s' = targetLetter s"
    unfolding c by (simp_all add: sameSession_def updateScore_def initCleared_fields)
  from ss have "take (length (events (initCleared s))) (events s4) = events (initCleared s)"
    by (simp add: sameSession_def)
  with initCleared_fields(14)[of s] have t: "take (length (events s)) (events s4) = events s"
    by (metis append_eq_conv_conj append_take_drop_id append.assoc)
  from events_length[OF t] t show "take (length (events s)) (events s') = events s"
    unfolding c by (simp add: updateScore_def)
qed

lemma borderUntouched_markEmpty:
  assumes "inGrid g y x" "borderUntouched nrows ncols g"
  shows "borderUntouched nrows ncols (markEmpty g y x)"
  unfolding borderUntouched_iff
proof (intro allI impI)
  fix i j assume a: "0 \<le> i \<and> i < nrows \<and> 0 \<le> j \<and> j < ncols \<and> \<not> inPlayArea nrows ncols i j"
  with assms(2) have e: "cellAt g i j = emptyCell" by (simp add: borderUntouched_iff)
  from assms(1) have nn: "0 \<le> y" "0 \<le> x" by (auto simp: inGrid_def)
  show "cellAt (markEmpty g y x) i j = emptyCell"
  proof (cases "(i, j) = (y, x)")
    case True
    with e cellAt_setCell_same[OF assms(1)] show ?thesis
      by (simp add: markEmpty_def emptyCell_def)
  next
    case False
    with a nn e show ?thesis
      unfolding markEmpty_def by (subst cellAt_setCell_other) auto
  qed
qed

lemma inGrid_markEmpty [simp]: "inGrid (markEmpty g y x) i j = inGrid g i j"
  by (simp add: markEmpty_def)

lemma wellFormed_markEmpty [simp]: "wellFormed nrows ncols (markEmpty g y x) = wellFormed nrows ncols g"
  by (simp add: markEmpty_def)

lemma updateStatus_inv:
  assumes "updateStatus pr pc cr cc s = Inr s'" "gridInvariant s"
  shows "gridOK s' \<and> rows s' = rows s \<and> cols s' = cols s"
proof -
  from updateStatus_unfold[OF assms(1)] have g: "inGrid (pictures s) pr pc" "inGrid (pictures s) cr cc"
    and k: "keepsPlay s s'" and p: "pictures s' = markEmpty (markEmpty (pictures s) pr pc) cr cc"
    by simp_all
  from g(1) have "pictures s \<noteq> []" by (auto simp: inGrid_def)
  with assms(2) have ok: "wellFormed (rows s) (cols s) (pictures s)" "borderUntouched (rows s) (cols s) (pictures s)"
    by (simp_all add: gridInvariant_def gridOK_def)
  from keepsPlay_dims[OF k] have rc: "rows s' = rows s" "cols s' = cols s" by simp_all
  have "borderUntouched (rows s) (cols s) (markEmpty (markEmpty (pictures s) pr pc) cr cc)"
    using g ok(2) by (intro borderUntouched_markEmpty) simp_all
  with ok(1) rc p show ?thesis by (simp add: gridOK_def)
qed

lemma resolveDeadlock_inv:
  assumes "resolveDeadlock s = Inr s'" "gridInvariant s"
  shows "gridInvariant s' \<and> rows s' = rows s \<and> cols s' = cols s"
proof -
  from resolveDeadlock_cases[OF assms(1)] show ?thesis
  proof
    assume "\<not> checkCurrentDeadlock s \<and> s' = s"
    with assms(2) show ?thesis by simp
  next
    assume "checkCurrentDeadlock s \<and> (\<exists>b s1. autoDisorder s = Inr (b, s1)
            \<and> s' = (if \<not> b then notify (ConsoleWarn DeadlockNeedsManual) s1 else s1))"
    then obtain b s1 where a: "autoDisorder s = Inr (b, s1)"
      and s': "s' = (if \<not> b then notify (ConsoleWarn DeadlockNeedsManual) s1 else s1)" by blast
    let ?s0 = "(notify (ToastError DeadlockAuto) (notify (ConsoleError DeadlockAuto) s))
                        \<lparr>leftDisorderTime := leftDisorderTime s - 1\<rparr>"
    have i0: "gridInvariant ?s0" using assms(2) by (simp add: gridInvariant_def gridOK_def)
    from autoDisorder_cases[OF a] have "gridInvariant s1 \<and> rows s1 = rows s \<and> cols s1 = cols s"
    proof
      assume "\<not> b \<and> s1 = s" with assms(2) show ?thesis by simp
    next
      assume "b \<and> disorder ?s0 = Inr s1"
      then have "disorder ?s0 = Inr s1" by simp
      from disorder_inv[OF this i0] show ?thesis by simp
    qed
    then show ?thesis unfolding s' by (auto simp: gridInvariant_def gridOK_def)
  qed
qed

lemma updateSteps_inv:
  assumes "updateSteps s = Inr s'" "gridInvariant s"
  shows "gridInvariant s' \<and> rows s' = rows s \<and> cols s' = cols s"
proof -
  let ?s1 = "emit OnStepUpdate (StepUpdate (steps s + 1)) (s\<lparr>steps := steps s + 1\<rparr>)"
  from updateSteps_unfold[OF assms(1)] obtain s2 where
    r: "resolveDeadlock ?s1 = Inr s2" and f: "s' = checkStepLimit (hintAtStepFive s2)" by blast
  have "gridInvariant ?s1" using assms(2) by (simp add: gridInvariant_def gridOK_def)
  from resolveDeadlock_inv[OF r this] have i2: "gridInvariant s2" "rows s2 = rows s" "cols s2 = cols s"
    by simp_all
  have k: "keepsPlay s2 s'" unfolding f
    by (rule keepsPlay_trans[OF keepsPlay_hintAtStepFive keepsPlay_checkStepLimit])
  have p: "pictures s' = pictures s2" unfolding f by simp
  from keepsPlay_dims[OF k] i2 p show ?thesis
    by (simp add: gridInvariant_def gridOK_def)
qed

lemma gridInvariant_keepsPlay:
  "keepsPlay s s' \<Longrightarrow> pictures s' = pictures s \<Longrightarrow> gridInvariant s' = gridInvariant s"
  using keepsPlay_dims[of s s'] by (auto simp: gridInvariant_def gridOK_def)

lemma invoke_inv:
  assumes "invoke k s = Inr s'" "gridInvariant s"
  shows "gridInvariant s' \<and> rows s' = rows s \<and> cols s' = cols s"
proof (cases k)
  case (MatchResolved pr pc cr cc pi ci)
  from invoke_MatchResolved_unfold[OF assms(1)[unfolded MatchResolved]] obtain s1 s2 where
    a: "updateStatus pr pc cr cc s = Inr s1"
    and b: "updateSteps (updateScore (renderMap s1)) = Inr s2"
    and c: "s' = s2\<lparr>isAnimating := False\<rparr>" by blast
  from updateStatus_inv[OF a assms(2)] have i1: "gridOK s1" "rows s1 = rows s" "cols s1 = cols s"
    by simp_all
  then have "gridInvariant (updateScore (renderMap s1))"
    by (auto simp: gridInvariant_def gridOK_def updateScore_def renderMap_def)
  from updateSteps_inv[OF b this] i1 show ?thesis
    unfolding c by (auto simp: gridInvariant_def gridOK_def updateScore_def renderMap_def)
next
  case RejectResolved
  let ?s0 = "(setSelectedCell None (s\<lparr>preClickInfo := None\<rparr>))\<lparr>isAnimating := False\<rparr>"
  from assms(1) obtain s1 where a: "updateSteps ?s0 = Inr s1"
    unfolding RejectResolved by (cases "updateSteps ?s0") (auto simp: invoke_def)
  with assms(1) have s': "s' = addShakeEffect [] s1" unfolding RejectResolved by (simp add: invoke_def)
  have "gridInvariant ?s0" using assms(2) by (auto simp: gridInvariant_def gridOK_def)
  from updateSteps_inv[OF a this] show ?thesis
    unfolding s' by (auto simp: gridInvariant_def gridOK_def addShakeEffect_def)
next
  case NoOp
  with assms show ?thesis by (simp add: invoke_def)
qed

lemma drawLine_inv:
  assumes "drawLine pts k1 k2 s = Inr s'" "gridInvariant s"
  shows "gridInvariant s' \<and> rows s' = rows s \<and> cols s' = cols s"
proof -
  have i0: "gridInvariant (setSelectedCell None s)"
    using assms(2) by (auto simp: gridInvariant_def gridOK_def)
  from drawLine_cases[OF assms(1)] show ?thesis
  proof
    assume "hooks s OnDrawLine \<and> s' = notify (DrawLine pts k1 k2) (setSelectedCell None s)"
    with assms(2) show ?thesis by (auto simp: gridInvariant_def gridOK_def)
  next
    assume "\<not> hooks s OnDrawLine \<and> invoke k1 (setSelectedCell None s) = Inr s'"
    then have "invoke k1 (setSelectedCell None s) = Inr s'" by simp
    from invoke_inv[OF this i0] show ?thesis by simp
  qed
qed

lemma checkMatch_inv:
  assumes "checkMatch cur s = Inr s'" "gridInvariant s"
  shows "gridInvariant s' \<and> rows s' = rows s \<and> cols s' = cols s"
proof -
  from checkMatch_cases[OF assms(1)] consider
    "s' = s" | "s' = (setSelectedCell None s)\<lparr>preClickInfo := None\<rparr>"
    | "s' = setSelectedCell (Some cur) (s\<lparr>preClickInfo := Some cur\<rparr>)"
    | pre pts where "matchConnected pre cur pts s = Inr s'"
    | pre where "matchRejected pre cur s = Inr s'" by blast
  then show ?thesis
  proof cases
    case 1 with assms(2) show ?thesis by simp
  next
    case 2 with assms(2) show ?thesis by (auto simp: gridInvariant_def gridOK_def)
  next
    case 3 with assms(2) show ?thesis by (auto simp: gridInvariant_def gridOK_def)
  next
    case 4
    let ?s2 = "emit OnAnimationStart (AnimationStart [(row pre, col pre), (row cur, col cur)])
                        (s\<lparr>score := score s + 100, remain := remain s - 2, isAnimating := True\<rparr>)"
    from matchConnected_unfold[OF 4] obtain s3 where
      d: "drawLine pts (MatchResolved (row pre) (col pre) (row cur) (col cur) (clickIndex pre) (clickIndex cur))
                NoOp ?s2 = Inr s3"
      and s': "s' = setSelectedCell None (s3\<lparr>preClickInfo := None\<rparr>)" by blast
    have "gridInvariant ?s2" using assms(2) by (auto simp: gridInvariant_def gridOK_def)
    from drawLine_inv[OF d this] show ?thesis
      unfolding s' by (auto simp: gridInvariant_def gridOK_def)
  next
    case 5
    let ?s2 = "addShakeEffect
                 [(row pre, col pre, pic (cellAt (pictures s) (row pre) (col pre))),
                  (row cur, col cur, pic (cellAt (pictures s) (row cur) (col cur)))]
                 (s\<lparr>isAnimating := True\<rparr>)"
    from 5 have d: "drawLine [] NoOp RejectResolved ?s2 = Inr s'"
      by (simp add: matchRejected_def Let_def)
    have "gridInvariant ?s2" using assms(2) by (auto simp: gridInvariant_def gridOK_def addShakeEffect_def)
    from drawLine_inv[OF d this] show ?thesis by (simp add: addShakeEffect_def)
  qed
qed

lemma handleCellClick_inv:
  assumes "handleCellClick r c i s = Inr s'" "gridInvariant s"
  shows "gridInvariant s' \<and> rows s' = rows s \<and> cols s' = cols s"
proof (cases "remain s \<le> 0 \<or> isAnimating s")
  case True
  with assms show ?thesis by (auto simp: handleCellClick_def split: if_splits)
next
  case False
  with assms(1) have c: "checkMatch \<lparr>row = r, col = c, clickIndex = i\<rparr> (clearHint s) = Inr s'"
    by (simp add: handleCellClick_def)
  have "gridInvariant (clearHint s)" using assms(2) by (auto simp: gridInvariant_def gridOK_def clearHint_def)
  from checkMatch_inv[OF c this] show ?thesis by (simp add: clearHint_def)
qed

lemma tick_fields [simp]:
  "pictures (tick s) = pictures s" "rows (tick s) = rows s" "cols (tick s) = cols s"
  "score (tick s) = score s" "steps (tick s) = steps s" "remain (tick s) = remain s"
  by (simp_all add: tick_def updateCountDown_def Let_def)

lemma tick_timer: "timer (tick s) \<Longrightarrow> timer s"
  by (cases "timer s") (simp_all add: tick_def)

lemma perform_inv:
  assumes "perform op s = Inr s'" "gridInvariant s"
  shows "gridInvariant s' \<and> rows s' = rows s \<and> cols s' = cols s"
proof (cases op)
  case Start
  with assms(1) have "init s = Inr s'" by (simp add: perform_def startGame_def)
  from init_fields(1-3)[OF this] show ?thesis by (simp add: gridInvariant_def)
next
  case Restart
  let ?s0 = "setSelectedCell None (s\<lparr>score := 0, steps := 0, leftDisorderTime := 5\<rparr>)"
  from assms(1) obtain s1 where i: "init ?s0 = Inr s1"
    unfolding Restart perform_def by (cases "init ?s0") (auto simp: restartGame_def reset_def)
  with assms(1) have s': "s' = emit OnStepUpdate (StepUpdate (steps (emit OnScoreUpdate (ScoreUpdate (score s1)) s1)))
                                (emit OnScoreUpdate (ScoreUpdate (score s1)) s1)"
    unfolding Restart perform_def by (simp add: restartGame_def reset_def Let_def)
  from init_fields(1-3)[OF i] show ?thesis unfolding s' by (simp add: gridInvariant_def)
next
  case (Click r c i)
  with assms show ?thesis using handleCellClick_inv[of r c i s s'] by (simp add: perform_def)
next
  case (Acknowledge k)
  with assms show ?thesis using invoke_inv[of k s s'] by (simp add: perform_def)
next
  case Tick
  with assms show ?thesis
    by (auto simp: perform_def gridInvariant_def gridOK_def)
next
  case Reshuffle
  show ?thesis
  proof (cases "leftDisorderTime s > 0")
    case False
    with assms Reshuffle show ?thesis by (simp add: perform_def handleDisorder_def)
  next
    case True
    let ?s0 = "s\<lparr>leftDisorderTime := leftDisorderTime s - 1\<rparr>"
    from assms(1) True have d: "disorder ?s0 = Inr s'"
      unfolding Reshuffle perform_def handleDisorder_def by (cases "disorder ?s0") auto
    have "gridInvariant ?s0" using assms(2) by (auto simp: gridInvariant_def gridOK_def)
    from disorder_inv[OF d this] show ?thesis by simp
  qed
next
  case (SetTarget l)
  with assms show ?thesis by (auto simp: perform_def setTargetLetter_def gridInvariant_def gridOK_def)
next
  case Destroy
  with assms show ?thesis by (auto simp: perform_def destroy_def gridInvariant_def gridOK_def)
next
  case (Register h b)
  with assms show ?thesis by (auto simp: perform_def gridInvariant_def gridOK_def)
next
  case (Supply rnd)
  with assms show ?thesis by (auto simp: perform_def gridInvariant_def gridOK_def)
qed

lemma reachable_gridInvariant: "reachable s \<Longrightarrow> gridInvariant s"
proof (induction rule: reachable.induct)
  case (fresh cfgCols cfgRows cfgTime)
  then show ?case by (simp add: gridInvariant_def newEngine_def)
next
  case (step s op s')
  from perform_inv[OF step.hyps(2) step.IH] show ?case by simp
qed


section \<open>The border of the grid\<close>

lemma runOps_reachable: "reachable s \<Longrightarrow> runOps ops s = Inr s' \<Longrightarrow> reachable s'"
proof (induction ops arbitrary: s)
  case Nil
  then show ?case by simp
next
  case (Cons op ops)
  from Cons.prems(2) obtain s1 where a: "perform op s = Inr s1" and b: "runOps ops s1 = Inr s'"
    by (cases "perform op s") auto
  from reachable.step[OF Cons.prems(1) a] have "reachable s1" .
  from Cons.IH[OF this b] show ?case .
qed

text \<open>
  Claim C7. In every state that operations lead to from a new engine, every cell of
  the grid outside the play area (row 0, the last row, column 0, the last column) is
  the empty cell that \<^verbatim>\<open>initializeEmptyMap\<close> put there: it is empty and no symbol was
  ever written to it. Before the first \<^verbatim>\<open>init\<close> the grid has no cell.
\<close>

theorem border_stays_empty:
  assumes "reachable s" "inGrid (pictures s) y x" "\<not> inPlayArea (rows s) (cols s) y x"
  shows "cellAt (pictures s) y x = emptyCell \<and> isEmpty (cellAt (pictures s) y x)"
proof -
  from assms(2) have ne: "pictures s \<noteq> []" by (auto simp: inGrid_def)
  with reachable_gridInvariant[OF assms(1)] have wf: "wellFormed (rows s) (cols s) (pictures s)"
    and bu: "borderUntouched (rows s) (cols s) (pictures s)"
    by (simp_all add: gridInvariant_def gridOK_def)
  from inGrid_nat[OF assms(2)] have n: "nat y < length (pictures s)" "nat x < length (pictures s ! nat y)"
    by simp_all
  from wf n(1) have "length (pictures s ! nat y) = nat (cols s)"
    by (simp add: wellFormed_def list_all_length)
  with wf n assms(2) have "0 \<le> y \<and> y < rows s \<and> 0 \<le> x \<and> x < cols s"
    by (auto simp: wellFormed_def inGrid_def)
  with bu assms(3) have "cellAt (pictures s) y x = emptyCell" by (simp add: borderUntouched_iff)
  then show ?thesis by (simp add: emptyCell_def)
qed

theorem border_stays_empty_witness:
  "reachable startedEngine \<and> inGrid (pictures startedEngine) 0 3
   \<and> \<not> inPlayArea (rows startedEngine) (cols startedEngine) 0 3
   \<and> \<not> isEmpty (cellAt (pictures startedEngine) 1 1)
   \<and> cellAt (pictures startedEngine) 0 3 = emptyCell \<and> isEmpty (cellAt (pictures startedEngine) 0 3)"
proof -
  have "\<not> isl (runOps [Supply [0, 1, 2, 3], Start] (newEngine (Some 4) (Some 3) (Some 1)))"
    by code_simp
  then have "runOps [Supply [0, 1, 2, 3], Start] (newEngine (Some 4) (Some 3) (Some 1)) = Inr startedEngine"
    by (simp add: startedEngine_def)
  from runOps_reachable[OF reachable.fresh this] have r: "reachable startedEngine" .
  have g: "inGrid (pictures startedEngine) 0 3" by code_simp
  have p: "\<not> inPlayArea (rows startedEngine) (cols startedEngine) 0 3" by code_simp
  have o: "\<not> isEmpty (cellAt (pictures startedEngine) 1 1)" by code_simp
  from border_stays_empty[OF r g p] r g p o show ?thesis by blast
qed


section \<open>A rejected pair when no line is drawn\<close>

lemma handleCellClick_second:
  assumes "secondPick r c pre s"
  shows "handleCellClick r c i s =
     (let cur = \<lparr>row = r, col = c, clickIndex = i\<rparr>; s0 = clearHint s in
      if lettersMatch r c pre s then
        (if pathFound r c pre s
         then matchConnected pre cur (snd (canCleanup (cols s) (rows s) (pictures s) (col pre) (row pre) c r)) s0
         else matchRejected pre cur s0)
      else Inr (setSelectedCell (Some cur) (s0\<lparr>preClickInfo := Some cur\<rparr>)))"
proof -
  have f: "remain (clearHint s) = remain s" "pictures (clearHint s) = pictures s"
    "preClickInfo (clearHint s) = preClickInfo s" "selectedCell (clearHint s) = selectedCell s"
    "cols (clearHint s) = cols s" "rows (clearHint s) = rows s"
    by (simp_all add: clearHint_def)
  from assms have a: "0 < remain s" "\<not> isAnimating s" "preClickInfo s = Some pre"
    "inGrid (pictures s) r c" "inGrid (pictures s) (row pre) (col pre)"
    "\<not> isEmpty (cellAt (pictures s) r c)"
    by (auto simp: secondPick_def)
  have sel: "(case selectedCell s of None \<Rightarrow> False
              | Some sel \<Rightarrow> row sel = row \<lparr>row = r, col = c, clickIndex = i\<rparr>
                            \<and> col sel = col \<lparr>row = r, col = c, clickIndex = i\<rparr>) = False"
    using assms by (cases "selectedCell s") (auto simp: secondPick_def)
  show ?thesis
  proof (cases "canCleanup (cols s) (rows s) (pictures s) (col pre) (row pre) c r")
    case (Pair b pts)
    then show ?thesis using a
      by (cases b) (simp_all add: handleCellClick_def checkMatch_def f sel lettersMatch_def pathFound_def Let_def)
  qed
qed

lemma matchRejected_unset:
  assumes "\<not> hooks s OnDrawLine"
  shows "matchRejected pre cur s =
     Inr (setSelectedCell None
            (addShakeEffect [(row pre, col pre, pic (cellAt (pictures s) (row pre) (col pre))),
                             (row cur, col cur, pic (cellAt (pictures s) (row cur) (col cur)))]
               (s\<lparr>isAnimating := True\<rparr>)))"
  using assms
  by (simp add: matchRejected_def drawLine_def Let_def invoke_def addShakeEffect_def)

text \<open>
  Claim C10, as the code has it. With \<^verbatim>\<open>onDrawLine\<close> null, a second pick whose letter
  matches the first but that \<^verbatim>\<open>canCleanup\<close> cannot connect returns with the lock
  \<^verbatim>\<open>isAnimating\<close> set, the shake reported, and nothing else done than clearing the
  hint and the selected cell: \<^verbatim>\<open>drawLine\<close> clears \<^verbatim>\<open>selectedCell\<close> itself, whereas the
  first pick \<^verbatim>\<open>preClickInfo\<close> stays. No closure is called or handed out, so the steps,
  the score, \<^verbatim>\<open>remain\<close> and the grid are as before, and every later click returns the
  state unchanged.
\<close>

theorem rejection_without_onDrawLine:
  assumes "secondPick r c pre s" "lettersMatch r c pre s" "\<not> pathFound r c pre s"
    and "\<not> hooks s OnDrawLine"
  shows "\<exists>s'. handleCellClick r c i s = Inr s'
           \<and> s' = setSelectedCell None
                    (addShakeEffect [(row pre, col pre, pic (cellAt (pictures s) (row pre) (col pre))),
                                     (r, c, pic (cellAt (pictures s) r c))]
                       ((clearHint s)\<lparr>isAnimating := True\<rparr>))
           \<and> isAnimating s' \<and> steps s' = steps s \<and> preClickInfo s' = Some pre
           \<and> selectedCell s' = None \<and> score s' = score s \<and> remain s' = remain s
           \<and> pictures s' = pictures s
           \<and> filter isDrawLine (events s') = filter isDrawLine (events s)
           \<and> handleCellClick r' c' i' s' = Inr s'"
proof -
  let ?cur = "\<lparr>row = r, col = c, clickIndex = i\<rparr>"
  let ?s' = "setSelectedCell None
                    (addShakeEffect [(row pre, col pre, pic (cellAt (pictures s) (row pre) (col pre))),
                                     (r, c, pic (cellAt (pictures s) r c))]
                       ((clearHint s)\<lparr>isAnimating := True\<rparr>))"
  have h: "\<not> hooks (clearHint s) OnDrawLine" using assms(4) by (simp add: clearHint_def)
  have "handleCellClick r c i s = matchRejected pre ?cur (clearHint s)"
    using handleCellClick_second[OF assms(1), of i] assms(2,3) by (simp add: Let_def)
  also have "\<dots> = Inr ?s'" using matchRejected_unset[OF h, of pre ?cur] by (simp add: clearHint_def)
  finally have r: "handleCellClick r c i s = Inr ?s'" .
  from assms(1) have p: "preClickInfo s = Some pre" by (simp add: secondPick_def)
  have f: "isAnimating ?s'" "steps ?s' = steps s" "preClickInfo ?s' = Some pre"
    "selectedCell ?s' = None" "score ?s' = score s" "remain ?s' = remain s" "pictures ?s' = pictures s"
    using p by (simp_all add: addShakeEffect_def clearHint_def)
  have e: "filter isDrawLine (events ?s') = filter isDrawLine (events s)"
    by (simp add: addShakeEffect_def clearHint_def isDrawLine_def)
  have l: "handleCellClick r' c' i' ?s' = Inr ?s'"
    using f(1) by (simp add: handleCellClick_def)
  from r f e l show ?thesis by blast
qed

theorem rejection_without_onDrawLine_witness:
  "secondPick 1 1 \<lparr>row = 2, col = 2, clickIndex = 0\<rparr> blockedEngine
   \<and> lettersMatch 1 1 \<lparr>row = 2, col = 2, clickIndex = 0\<rparr> blockedEngine
   \<and> \<not> pathFound 1 1 \<lparr>row = 2, col = 2, clickIndex = 0\<rparr> blockedEngine
   \<and> \<not> hooks blockedEngine OnDrawLine
   \<and> (\<exists>s'. handleCellClick 1 1 0 blockedEngine = Inr s'
           \<and> isAnimating s' \<and> steps s' = steps blockedEngine
           \<and> preClickInfo s' = Some \<lparr>row = 2, col = 2, clickIndex = 0\<rparr>
           \<and> selectedCell s' = None \<and> handleCellClick 3 2 0 s' = Inr s')"
proof -
  have a: "secondPick 1 1 \<lparr>row = 2, col = 2, clickIndex = 0\<rparr> blockedEngine" by code_simp
  have b: "lettersMatch 1 1 \<lparr>row = 2, col = 2, clickIndex = 0\<rparr> blockedEngine" by code_simp
  have c: "\<not> pathFound 1 1 \<lparr>row = 2, col = 2, clickIndex = 0\<rparr> blockedEngine" by code_simp
  have d: "\<not> hooks blockedEngine OnDrawLine" by code_simp
  from rejection_without_onDrawLine[OF a b c d, of 0 3 2 0] a b c d show ?thesis by blast
qed

theorem selected_cell_cleared_by_rejection:
  "selectedCell blockedEngine = Some \<lparr>row = 2, col = 2, clickIndex = 0\<rparr>
   \<and> preClickInfo blockedEngine = Some \<lparr>row = 2, col = 2, clickIndex = 0\<rparr>
   \<and> \<not> hooks blockedEngine OnDrawLine
   \<and> isMatch (pic (cellAt (pictures blockedEngine) 2 2)) (pic (cellAt (pictures blockedEngine) 1 1))
   \<and> \<not> fst (canCleanup (cols blockedEngine) (rows blockedEngine) (pictures blockedEngine) 2 2 1 1)
   \<and> \<not> isl (handleCellClick 1 1 0 blockedEngine)
   \<and> finalSelectedCell (handleCellClick 1 1 0 blockedEngine) = None"
  by code_simp


section \<open>Starting and restarting\<close>









section \<open>Steps and countdown through the operations\<close>

lemma invoke_advance:
  assumes "invoke k s = Inr s'"
  shows "(timer s' \<longrightarrow> timer s) \<and> hooks s' = hooks s
         \<and> steps s' = (if k = NoOp then steps s else steps s + 1)"
proof (cases k)
  case (MatchResolved pr pc cr cc pi ci)
  from invoke_MatchResolved_keeps[OF assms[unfolded MatchResolved]] MatchResolved
  show ?thesis by (simp add: keeps_def)
next
  case RejectResolved
  from invoke_RejectResolved_keeps[OF assms[unfolded RejectResolved]] RejectResolved
  show ?thesis by (auto simp: keeps_def)
next
  case NoOp
  with assms show ?thesis by (simp add: invoke_def)
qed

lemma drawLine_advance:
  assumes "drawLine pts k1 k2 s = Inr s'"
  shows "(timer s' \<longrightarrow> timer s) \<and> hooks s' = hooks s
         \<and> steps s' = (if hooks s OnDrawLine \<or> k1 = NoOp then steps s else steps s + 1)"
proof -
  from drawLine_cases[OF assms] show ?thesis
  proof
    assume "hooks s OnDrawLine \<and> s' = notify (DrawLine pts k1 k2) (setSelectedCell None s)"
    then show ?thesis by simp
  next
    assume a: "\<not> hooks s OnDrawLine \<and> invoke k1 (setSelectedCell None s) = Inr s'"
    from invoke_advance[of k1 "setSelectedCell None s" s'] a show ?thesis by simp
  qed
qed

lemma checkMatch_advance:
  assumes "checkMatch cur s = Inr s'"
  shows "(timer s' \<longrightarrow> timer s) \<and> hooks s' = hooks s
         \<and> (steps s' = steps s \<or> \<not> hooks s OnDrawLine \<and> steps s' = steps s + 1)"
proof -
  from checkMatch_cases[OF assms] consider
    "s' = s" | "s' = (setSelectedCell None s)\<lparr>preClickInfo := None\<rparr>"
    | "s' = setSelectedCell (Some cur) (s\<lparr>preClickInfo := Some cur\<rparr>)"
    | pre pts where "matchConnected pre cur pts s = Inr s'"
    | pre where "matchRejected pre cur s = Inr s'" by blast
  then show ?thesis
  proof cases
    case 1 then show ?thesis by simp
  next
    case 2 then show ?thesis by simp
  next
    case 3 then show ?thesis by simp
  next
    case 4
    let ?s2 = "emit OnAnimationStart (AnimationStart [(row pre, col pre), (row cur, col cur)])
                        (s\<lparr>score := score s + 100, remain := remain s - 2, isAnimating := True\<rparr>)"
    from matchConnected_unfold[OF 4] obtain s3 where
      d: "drawLine pts (MatchResolved (row pre) (col pre) (row cur) (col cur) (clickIndex pre) (clickIndex cur))
                NoOp ?s2 = Inr s3"
      and s': "s' = setSelectedCell None (s3\<lparr>preClickInfo := None\<rparr>)" by blast
    from drawLine_advance[OF d] show ?thesis unfolding s' by auto
  next
    case 5
    let ?s2 = "addShakeEffect
                 [(row pre, col pre, pic (cellAt (pictures s) (row pre) (col pre))),
                  (row cur, col cur, pic (cellAt (pictures s) (row cur) (col cur)))]
                 (s\<lparr>isAnimating := True\<rparr>)"
    from 5 have d: "drawLine [] NoOp RejectResolved ?s2 = Inr s'"
      by (simp add: matchRejected_def Let_def)
    from drawLine_advance[OF d] show ?thesis by (simp add: addShakeEffect_def)
  qed
qed

lemma handleCellClick_advance:
  assumes "handleCellClick r c i s = Inr s'"
  shows "(timer s' \<longrightarrow> timer s) \<and> hooks s' = hooks s
         \<and> (steps s' = steps s \<or> \<not> hooks s OnDrawLine \<and> steps s' = steps s + 1)"
proof (cases "remain s \<le> 0 \<or> isAnimating s")
  case True
  with assms show ?thesis by (auto simp: handleCellClick_def split: if_splits)
next
  case False
  with assms have c: "checkMatch \<lparr>row = r, col = c, clickIndex = i\<rparr> (clearHint s) = Inr s'"
    by (simp add: handleCellClick_def)
  from checkMatch_advance[OF c] show ?thesis by (simp add: clearHint_def)
qed

lemma handleDisorder_advance:
  assumes "handleDisorder s = Inr (b, s')"
  shows "timer s' = timer s \<and> hooks s' = hooks s \<and> steps s' = steps s"
proof (cases "leftDisorderTime s > 0")
  case False
  with assms show ?thesis by (simp add: handleDisorder_def)
next
  case True
  let ?s0 = "s\<lparr>leftDisorderTime := leftDisorderTime s - 1\<rparr>"
  from assms True have d: "disorder ?s0 = Inr s'"
    unfolding handleDisorder_def by (cases "disorder ?s0") auto
  from sameSession_disorder[OF d] show ?thesis by (simp add: sameSession_def)
qed

lemma perform_advance:
  assumes "perform op s = Inr s'"
  shows "(op \<noteq> Restart \<longrightarrow> steps s \<le> steps s')
         \<and> (op \<noteq> Start \<and> op \<noteq> Restart \<longrightarrow> (timer s' \<longrightarrow> timer s))"
proof (cases op)
  case Start
  with assms have "init s = Inr s'" by (simp add: perform_def startGame_def)
  from init_fields(5)[OF this] Start show ?thesis by simp
next
  case Restart
  then show ?thesis by simp
next
  case (Click r c i)
  with assms have "handleCellClick r c i s = Inr s'" by (simp add: perform_def)
  from handleCellClick_advance[OF this] Click show ?thesis by auto
next
  case (Acknowledge k)
  with assms have "invoke k s = Inr s'" by (simp add: perform_def)
  from invoke_advance[OF this] Acknowledge show ?thesis by auto
next
  case Tick
  with assms have "s' = tick s" by (simp add: perform_def)
  with tick_timer[of s] Tick show ?thesis by auto
next
  case Reshuffle
  show ?thesis
  proof (cases "handleDisorder s")
    case (Inl e)
    with assms Reshuffle show ?thesis by (simp add: perform_def)
  next
    case (Inr p)
    obtain b s1 where p: "p = (b, s1)" by (cases p)
    with Inr assms Reshuffle have "s1 = s'" by (simp add: perform_def)
    with Inr p have "handleDisorder s = Inr (b, s')" by simp
    from handleDisorder_advance[OF this] Reshuffle show ?thesis by simp
  qed
next
  case (SetTarget l)
  with assms show ?thesis by (auto simp: perform_def setTargetLetter_def)
next
  case Destroy
  with assms show ?thesis by (auto simp: perform_def destroy_def)
next
  case (Register h b)
  with assms show ?thesis by (auto simp: perform_def)
next
  case (Supply rnd)
  with assms show ?thesis by (auto simp: perform_def)
qed




text \<open>
  Claim C6. No operation but a restart, which sets the steps to 0, lowers the step
  counter. Calling the success closure of a connected pair or the error closure of a
  rejected pair adds exactly 1. With \<^verbatim>\<open>onDrawLine\<close> set a click adds nothing, so a click
  followed by the call of a closure adds exactly 1; with \<^verbatim>\<open>onDrawLine\<close> null a click
  adds nothing or, the success closure being called at once, exactly 1. A second pick
  whose letter does not match the first adds nothing and becomes the first pick.
\<close>

theorem steps_advance_by_resolved_attempts:
  "(op \<noteq> Restart \<and> perform op s = Inr s' \<longrightarrow> steps s \<le> steps s')
   \<and> (k \<noteq> NoOp \<and> invoke k s = Inr s1 \<longrightarrow> steps s1 = steps s + 1)
   \<and> (handleCellClick r c i s = Inr s2 \<longrightarrow>
        steps s2 = steps s \<or> \<not> hooks s OnDrawLine \<and> steps s2 = steps s + 1)
   \<and> (hooks s OnDrawLine \<and> k \<noteq> NoOp \<and> runOps [Click r c i, Acknowledge k] s = Inr s3 \<longrightarrow>
        steps s3 = steps s + 1)
   \<and> (secondPick r' c' pre s \<and> \<not> lettersMatch r' c' pre s \<longrightarrow>
        (\<exists>s4. handleCellClick r' c' i' s = Inr s4 \<and> steps s4 = steps s
              \<and> preClickInfo s4 = Some \<lparr>row = r', col = c', clickIndex = i'\<rparr>
              \<and> selectedCell s4 = Some \<lparr>row = r', col = c', clickIndex = i'\<rparr>))"
proof -
  have a: "op \<noteq> Restart \<and> perform op s = Inr s' \<longrightarrow> steps s \<le> steps s'"
  proof (intro impI, elim conjE)
    assume h: "op \<noteq> Restart" "perform op s = Inr s'"
    from perform_advance[OF h(2)] h(1) show "steps s \<le> steps s'" by simp
  qed
  have b: "k \<noteq> NoOp \<and> invoke k s = Inr s1 \<longrightarrow> steps s1 = steps s + 1"
  proof (intro impI, elim conjE)
    assume h: "k \<noteq> NoOp" "invoke k s = Inr s1"
    from invoke_advance[OF h(2)] h(1) show "steps s1 = steps s + 1" by simp
  qed
  have c: "handleCellClick r c i s = Inr s2 \<longrightarrow>
        steps s2 = steps s \<or> \<not> hooks s OnDrawLine \<and> steps s2 = steps s + 1"
  proof
    assume h: "handleCellClick r c i s = Inr s2"
    from handleCellClick_advance[OF h]
    show "steps s2 = steps s \<or> \<not> hooks s OnDrawLine \<and> steps s2 = steps s + 1" by simp
  qed
  have d: "hooks s OnDrawLine \<and> k \<noteq> NoOp \<and> runOps [Click r c i, Acknowledge k] s = Inr s3 \<longrightarrow>
        steps s3 = steps s + 1"
  proof (intro impI, elim conjE)
    assume h: "hooks s OnDrawLine" "k \<noteq> NoOp" "runOps [Click r c i, Acknowledge k] s = Inr s3"
    from h(3) obtain sm where m: "handleCellClick r c i s = Inr sm"
      by (cases "handleCellClick r c i s") (simp_all add: perform_def)
    with h(3) have n: "invoke k sm = Inr s3"
      by (cases "invoke k sm") (simp_all add: perform_def)
    from handleCellClick_advance[OF m] h(1) have "steps sm = steps s" by simp
    with invoke_advance[OF n] h(2) show "steps s3 = steps s + 1" by simp
  qed
  have e: "secondPick r' c' pre s \<and> \<not> lettersMatch r' c' pre s \<longrightarrow>
        (\<exists>s4. handleCellClick r' c' i' s = Inr s4 \<and> steps s4 = steps s
              \<and> preClickInfo s4 = Some \<lparr>row = r', col = c', clickIndex = i'\<rparr>
              \<and> selectedCell s4 = Some \<lparr>row = r', col = c', clickIndex = i'\<rparr>)"
  proof (intro impI, elim conjE)
    assume h: "secondPick r' c' pre s" "\<not> lettersMatch r' c' pre s"
    let ?cur = "\<lparr>row = r', col = c', clickIndex = i'\<rparr>"
    from handleCellClick_second[OF h(1), of i'] h(2)
    have "handleCellClick r' c' i' s = Inr (setSelectedCell (Some ?cur) ((clearHint s)\<lparr>preClickInfo := Some ?cur\<rparr>))"
      by (simp add: Let_def)
    then show "\<exists>s4. handleCellClick r' c' i' s = Inr s4 \<and> steps s4 = steps s
              \<and> preClickInfo s4 = Some ?cur \<and> selectedCell s4 = Some ?cur"
      by (simp add: clearHint_def)
  qed
  from a b c d e show ?thesis by (intro conjI)
qed

theorem steps_advance_by_resolved_attempts_witness:
  "perform (Click 1 1 0) watchedEngine = Inr (projr (handleCellClick 1 1 0 watchedEngine))
   \<and> invoke RejectResolved watchedEngine = Inr (projr (invoke RejectResolved watchedEngine))
   \<and> hooks watchedEngine OnDrawLine
   \<and> runOps [Click 1 1 0, Acknowledge RejectResolved] watchedEngine
        = Inr (projr (runOps [Click 1 1 0, Acknowledge RejectResolved] watchedEngine))
   \<and> secondPick 1 2 \<lparr>row = 2, col = 2, clickIndex = 0\<rparr> watchedEngine
   \<and> \<not> lettersMatch 1 2 \<lparr>row = 2, col = 2, clickIndex = 0\<rparr> watchedEngine
   \<and> steps watchedEngine = 0
   \<and> steps (projr (handleCellClick 1 1 0 watchedEngine)) = 0
   \<and> steps (projr (invoke RejectResolved watchedEngine)) = 1
   \<and> steps (projr (runOps [Click 1 1 0, Acknowledge RejectResolved] watchedEngine)) = 1
   \<and> (\<exists>s4. handleCellClick 1 2 7 watchedEngine = Inr s4 \<and> steps s4 = 0
          \<and> preClickInfo s4 = Some \<lparr>row = 1, col = 2, clickIndex = 7\<rparr>)"
proof -
  have "\<not> isl (handleCellClick 1 1 0 watchedEngine)" by code_simp
  then have a: "handleCellClick 1 1 0 watchedEngine = Inr (projr (handleCellClick 1 1 0 watchedEngine))"
    by simp
  then have a': "perform (Click 1 1 0) watchedEngine = Inr (projr (handleCellClick 1 1 0 watchedEngine))"
    by (simp add: perform_def)
  have "\<not> isl (invoke RejectResolved watchedEngine)" by code_simp
  then have b: "invoke RejectResolved watchedEngine = Inr (projr (invoke RejectResolved watchedEngine))"
    by simp
  have c: "hooks watchedEngine OnDrawLine" by code_simp
  have "\<not> isl (runOps [Click 1 1 0, Acknowledge RejectResolved] watchedEngine)" by code_simp
  then have d: "runOps [Click 1 1 0, Acknowledge RejectResolved] watchedEngine
        = Inr (projr (runOps [Click 1 1 0, Acknowledge RejectResolved] watchedEngine))"
    by (simp del: runOps.simps)
  have e: "secondPick 1 2 \<lparr>row = 2, col = 2, clickIndex = 0\<rparr> watchedEngine" by code_simp
  have f: "\<not> lettersMatch 1 2 \<lparr>row = 2, col = 2, clickIndex = 0\<rparr> watchedEngine" by code_simp
  have g: "steps watchedEngine = 0" by code_simp
  have n: "RejectResolved \<noteq> NoOp" "Click 1 1 0 \<noteq> Restart" by simp_all
  from steps_advance_by_resolved_attempts[of "Click 1 1 0" watchedEngine
         "projr (handleCellClick 1 1 0 watchedEngine)" RejectResolved
         "projr (invoke RejectResolved watchedEngine)" 1 1 0
         "projr (handleCellClick 1 1 0 watchedEngine)"
         "projr (runOps [Click 1 1 0, Acknowledge RejectResolved] watchedEngine)"
         1 2 "\<lparr>row = 2, col = 2, clickIndex = 0\<rparr>" 7]
  have t: "steps watchedEngine \<le> steps (projr (handleCellClick 1 1 0 watchedEngine))"
    "steps (projr (invoke RejectResolved watchedEngine)) = steps watchedEngine + 1"
    "steps (projr (handleCellClick 1 1 0 watchedEngine)) = steps watchedEngine"
    "steps (projr (runOps [Click 1 1 0, Acknowledge RejectResolved] watchedEngine)) = steps watchedEngine + 1"
    "\<exists>s4. handleCellClick 1 2 7 watchedEngine = Inr s4 \<and> steps s4 = steps watchedEngine
              \<and> preClickInfo s4 = Some \<lparr>row = 1, col = 2, clickIndex = 7\<rparr>
              \<and> selectedCell s4 = Some \<lparr>row = 1, col = 2, clickIndex = 7\<rparr>"
    using a a' b c d e f n by blast+
  from t a' b c d e f g show ?thesis by auto
qed


section \<open>A connected pair\<close>











end
